theory Spec2Isabelle
  imports Complex_Main "HOL-Library.Word" "HOL-Library.AList" "HOL-Library.Log_Nat"
begin

section \<open>Values shared by the two subsystems\<close>

text \<open>
  Go's \<open>float64\<close>: a finite value (a rational; every finite double is one), the two
  infinities and NaN. The comparisons are IEEE 754's: every ordered comparison with NaN
  is false, and NaN is not equal to anything.
\<close>

datatype float64 = Finite rat | PosInf | NegInf | NaN

fun f64_lt :: "float64 \<Rightarrow> float64 \<Rightarrow> bool" where
  "f64_lt NaN _ = False"
| "f64_lt _ NaN = False"
| "f64_lt (Finite a) (Finite b) = (a < b)"
| "f64_lt (Finite a) PosInf = True"
| "f64_lt (Finite a) NegInf = False"
| "f64_lt PosInf _ = False"
| "f64_lt NegInf NegInf = False"
| "f64_lt NegInf _ = True"

definition f64_gt :: "float64 \<Rightarrow> float64 \<Rightarrow> bool" where
  "f64_gt a b = f64_lt b a"

fun f64_eq :: "float64 \<Rightarrow> float64 \<Rightarrow> bool" where
  "f64_eq NaN _ = False"
| "f64_eq _ NaN = False"
| "f64_eq a b = (a = b)"

text \<open>
  \<open>time.Time\<close> is an instant in nanoseconds counted from Go's zero time (January 1 of
  year 1, UTC), so that \<open>IsZero\<close> is the test against 0; \<open>time.Duration\<close> is a number of
  nanoseconds. \<open>model.Time\<close> of the Prometheus client is a number of milliseconds since
  the Unix epoch.
\<close>

type_synonym Time = int
type_synonym Duration = int

definition IsZero :: "Time \<Rightarrow> bool" where
  "IsZero t = (t = 0)"

definition unixToInternal :: int where
  "unixToInternal = 62135596800"

definition UnixMilli :: "int \<Rightarrow> Time" where
  "UnixMilli ms = (unixToInternal * 1000 + ms) * 1000000"

definition Add :: "Time \<Rightarrow> Duration \<Rightarrow> Time" where
  "Add t d = t + d"

definition After :: "Time \<Rightarrow> Time \<Rightarrow> bool" where
  "After t u = (t > u)"

definition Microsecond :: Duration where
  "Microsecond = 1000"

definition Millisecond :: Duration where
  "Millisecond = 1000000"

section \<open>Backend metrics reader: the two-step history\<close>

record SamplePair =
  Timestamp :: int
  Value :: float64

record backendHistory =
  Step1History :: "SamplePair list"
  Step2History :: "SamplePair list"

subsection \<open>purgeHistory on one slice\<close>

text \<open>
  The search loop of \<open>purgeHistory\<close>: the index of the first pair that is still within
  the retention, or \<open>-1\<close> when there is none. The last argument is the loop counter.
\<close>

fun firstKept :: "SamplePair list \<Rightarrow> Duration \<Rightarrow> Time \<Rightarrow> nat \<Rightarrow> int" where
  "firstKept [] retention now i = -1"
| "firstKept (p # ps) retention now i =
     (if After (Add (UnixMilli (Timestamp p)) retention) now then int i
      else firstKept ps retention now (Suc i))"

text \<open>Go's \<open>copy(dst, src)\<close>: the first \<open>min (len dst) (len src)\<close> elements of dst are overwritten.\<close>

definition copy_slice :: "'a list \<Rightarrow> 'a list \<Rightarrow> 'a list" where
  "copy_slice dst src = take (length dst) src @ drop (length src) dst"

definition purgeHistory :: "SamplePair list \<Rightarrow> Duration \<Rightarrow> Time \<Rightarrow> SamplePair list" where
  "purgeHistory history retention now =
     (let idx = firstKept history retention now 0 in
      if idx > 0 then
        take (length history - nat idx) (copy_slice history (drop (nat idx) history))
      else if idx < 0 then take 0 history
      else history)"

text \<open>A pair is expired when its timestamp plus the retention is not after \<open>now\<close>.\<close>

definition expired :: "Duration \<Rightarrow> Time \<Rightarrow> SamplePair \<Rightarrow> bool" where
  "expired retention now p = (\<not> After (Add (UnixMilli (Timestamp p)) retention) now)"

subsection \<open>Rules, results and the state of the reader\<close>

text \<open>
  The Prometheus value types the reader stores. \<open>model.Vector\<close> is a slice of samples,
  \<open>model.Matrix\<close> a slice of sample streams; a \<open>Metric\<close> is a label map, kept as an
  association list. Reading a label that is absent gives the empty string, as reading a
  Go map does.
\<close>

datatype ValueType = ValNone | ValScalar | ValVector | ValMatrix | ValString

type_synonym Metric = "(string \<times> string) list"

record Sample =
  sMetric :: Metric
  sValue :: float64
  sTimestamp :: int

record SampleStream =
  ssMetric :: Metric
  ssValues :: "SamplePair list"

datatype model_Value =
    Vector "Sample list"
  | Matrix "SampleStream list"
  | Scalar SamplePair
  | String string

fun Value_Type :: "model_Value \<Rightarrow> ValueType" where
  "Value_Type (Vector _) = ValVector"
| "Value_Type (Matrix _) = ValMatrix"
| "Value_Type (Scalar _) = ValScalar"
| "Value_Type (String _) = ValString"

text \<open>
  Modelled from the spec: the declarations of \<open>LabelNameInstance\<close>, \<open>QueryRule\<close> and
  \<open>QueryResult\<close> are not among the sources. The spec gives the label as \<open>instance\<close>, the
  rule as \<open>{Names, Retention, ResultType, Metric2Value, Range2Value}\<close> and the result as
  \<open>{Value, UpdateTime, Err}\<close>; the reader's code uses exactly these fields. A metric
  family of the Prometheus client is kept as its name and its sample values. The
  \<open>Value\<close> of a result is an interface: \<open>None\<close> is the nil interface.
\<close>

definition LabelNameInstance :: string where
  "LabelNameInstance = ''instance''"

record MetricFamily =
  mfName :: string
  mfValues :: "float64 list"

record QueryRule =
  Names :: "string list"
  Retention :: Duration
  ResultType :: ValueType
  Metric2Value :: "(string \<times> MetricFamily) list \<Rightarrow> float64"
  Range2Value :: "SamplePair list \<Rightarrow> float64"

record QueryResult =
  qrValue :: "model_Value option"
  UpdateTime :: int
  Err :: "string option"

definition zeroQueryResult :: QueryResult where
  "zeroQueryResult = \<lparr>qrValue = None, UpdateTime = 0, Err = None\<rparr>"

text \<open>
  The reader. Its Go maps are association lists with distinct keys: a loop over a map
  is a fold over the list, and the order of the list stands for the order in which Go
  happens to iterate. \<open>marshalledHistory\<close> holds the history that was marshalled (the
  JSON encoding itself is not modelled), \<open>None\<close> while nothing has been marshalled.
\<close>

record BackendReader =
  queryRules :: "(string \<times> QueryRule) list"
  queryResults :: "(string \<times> QueryResult) list"
  history :: "(string \<times> (string \<times> backendHistory) list) list"
  marshalledHistory :: "(string \<times> (string \<times> backendHistory) list) list option"
  isOwner :: bool

definition NewBackendReader :: BackendReader where
  "NewBackendReader =
     \<lparr>queryRules = [], queryResults = [], history = [], marshalledHistory = None,
      isOwner = False\<rparr>"

definition AddQueryRule :: "string \<Rightarrow> QueryRule \<Rightarrow> BackendReader \<Rightarrow> BackendReader" where
  "AddQueryRule key rule br = br\<lparr>queryRules := AList.update key rule (queryRules br)\<rparr>"

definition RemoveQueryRule :: "string \<Rightarrow> BackendReader \<Rightarrow> BackendReader" where
  "RemoveQueryRule key br = br\<lparr>queryRules := AList.delete key (queryRules br)\<rparr>"

text \<open>\<open>GetQueryResult\<close> returns the stored result, or the zero result for an absent key.\<close>

definition GetQueryResult :: "string \<Rightarrow> BackendReader \<Rightarrow> QueryResult \<times> BackendReader" where
  "GetQueryResult key br =
     ((case map_of (queryResults br) key of None \<Rightarrow> zeroQueryResult | Some r \<Rightarrow> r), br)"

subsection \<open>From scraped metrics to history, from history to results\<close>

fun IsNaN :: "float64 \<Rightarrow> bool" where
  "IsNaN NaN = True"
| "IsNaN _ = False"

text \<open>Reading a Go map of maps or of structs: the zero value when the key is absent.\<close>

definition getRuleHistory ::
  "(string \<times> (string \<times> backendHistory) list) list \<Rightarrow> string \<Rightarrow> (string \<times> backendHistory) list" where
  "getRuleHistory h ruleKey = (case map_of h ruleKey of None \<Rightarrow> [] | Some rh \<Rightarrow> rh)"

definition getBackendHistory :: "(string \<times> backendHistory) list \<Rightarrow> string \<Rightarrow> backendHistory" where
  "getBackendHistory rh backend =
     (case map_of rh backend of
        None \<Rightarrow> \<lparr>Step1History = [], Step2History = []\<rparr>
      | Some bh \<Rightarrow> bh)"

text \<open>
  The body of the loop of \<open>metric2History\<close> for one rule. When \<open>Range2Value\<close> is NaN the
  loop continues before the backend's entry is written back, so the pair appended to the
  first-step history is lost too; a rule map created for the rule stays.
\<close>

definition metric2HistoryRule ::
  "(string \<times> MetricFamily) list \<Rightarrow> string \<Rightarrow> int \<Rightarrow> string \<times> QueryRule \<Rightarrow>
   (string \<times> (string \<times> backendHistory) list) list \<Rightarrow> (string \<times> (string \<times> backendHistory) list) list" where
  "metric2HistoryRule mfs backend now kr h =
     (let ruleKey = fst kr; rule = snd kr in
      if \<not> list_all (\<lambda>name. map_of mfs name \<noteq> None) (Names rule) then h
      else
        let sampleValue = Metric2Value rule mfs in
        if IsNaN sampleValue then h
        else
          let pair = \<lparr>Timestamp = now, Value = sampleValue\<rparr>;
              h1 = (case map_of h ruleKey of None \<Rightarrow> AList.update ruleKey [] h | Some rh \<Rightarrow> h);
              ruleHistory = getRuleHistory h1 ruleKey;
              beHistory = getBackendHistory ruleHistory backend;
              beHistory1 = beHistory\<lparr>Step1History := Step1History beHistory @ [pair]\<rparr>;
              sampleValue2 = Range2Value rule (Step1History beHistory1)
          in
            if IsNaN sampleValue2 then h1
            else
              AList.update ruleKey
                (AList.update backend
                   (beHistory1\<lparr>Step2History := Step2History beHistory1 @
                      [\<lparr>Timestamp = now, Value = sampleValue2\<rparr>]\<rparr>) ruleHistory) h1)"

definition metric2History ::
  "(string \<times> MetricFamily) list \<Rightarrow> string \<Rightarrow> int \<Rightarrow> BackendReader \<Rightarrow> BackendReader" where
  "metric2History mfs backend now br =
     br\<lparr>history := fold (metric2HistoryRule mfs backend now) (queryRules br) (history br)\<rparr>"

text \<open>The body of the loop of \<open>history2Value\<close> for one rule; \<open>results\<close> is the map being built.\<close>

definition history2ValueRule ::
  "(string \<times> (string \<times> backendHistory) list) list \<Rightarrow> string \<Rightarrow> string \<times> QueryRule \<Rightarrow>
   (string \<times> model_Value) list \<Rightarrow> (string \<times> model_Value) list" where
  "history2ValueRule h backend kr results =
     (let ruleKey = fst kr; rule = snd kr;
          labels = [(LabelNameInstance, backend)];
          ruleHistory = getRuleHistory h ruleKey in
      if length ruleHistory = 0 then results
      else
        let beHistory = getBackendHistory ruleHistory backend in
        if length (Step2History beHistory) = 0 then results
        else (case ResultType rule of
            ValVector \<Rightarrow>
              (let lastPair = last (Step2History beHistory) in
               AList.update ruleKey
                 (Vector [\<lparr>sMetric = labels, sValue = Value lastPair,
                            sTimestamp = Timestamp lastPair\<rparr>]) results)
          | ValMatrix \<Rightarrow>
              AList.update ruleKey
                (Matrix [\<lparr>ssMetric = labels, ssValues = Step2History beHistory\<rparr>]) results
          | _ \<Rightarrow> results))"

definition history2Value :: "string \<Rightarrow> BackendReader \<Rightarrow> (string \<times> model_Value) list" where
  "history2Value backend br = fold (history2ValueRule (history br) backend) (queryRules br) []"

subsection \<open>mergeQueryResult\<close>

definition instanceLabel :: "Metric \<Rightarrow> string" where
  "instanceLabel m = (case map_of m LabelNameInstance of None \<Rightarrow> [] | Some v \<Rightarrow> v)"

text \<open>
  The search loop of \<open>mergeQueryResult\<close>: the index of the first element whose instance
  label is the backend, or \<open>-1\<close>. The last argument is the loop counter.
\<close>

fun indexOfInstance :: "Metric list \<Rightarrow> string \<Rightarrow> nat \<Rightarrow> int" where
  "indexOfInstance [] backend i = -1"
| "indexOfInstance (m # ms) backend i =
     (if instanceLabel m = backend then int i else indexOfInstance ms backend (Suc i))"

text \<open>
  A failed type assertion and an index out of range panic in Go. The merge of one
  value into the stored one returns the panic or the new stored value.
\<close>

datatype panic = TypeAssertion | IndexOutOfRange

definition mergeValue :: "model_Value \<Rightarrow> model_Value \<Rightarrow> string \<Rightarrow> panic + model_Value" where
  "mergeValue cur v backend =
     (case cur of
        Vector vec \<Rightarrow>
          (let idx = indexOfInstance (map sMetric vec) backend 0 in
           case v of
             Vector nv \<Rightarrow>
               (case nv of
                  [] \<Rightarrow> Inl IndexOutOfRange
                | s # rest \<Rightarrow>
                    Inr (Vector (if idx \<ge> 0 then vec[nat idx := s] else vec @ [s])))
           | _ \<Rightarrow> Inl TypeAssertion)
      | Matrix mat \<Rightarrow>
          (let idx = indexOfInstance (map ssMetric mat) backend 0 in
           case v of
             Matrix nm \<Rightarrow>
               (case nm of
                  [] \<Rightarrow> Inl IndexOutOfRange
                | s # rest \<Rightarrow>
                    Inr (Matrix (if idx \<ge> 0 then mat[nat idx := s] else mat @ [s])))
           | _ \<Rightarrow> Inl TypeAssertion)
      | _ \<Rightarrow> Inr cur)"

text \<open>
  The loop of \<open>mergeQueryResult\<close> over the backend's values. A panic leaves the results
  as they are at that point (the map is updated in place) and is returned with them.
  The test for a missing value is \<open>None\<close> here: the values that \<open>history2Value\<close> builds
  and the merge stores hold one element at least, so no nil slice is ever inside the
  interface, and an empty list stands for an empty slice that is not nil.
\<close>

fun mergeQueryResult_loop ::
  "(string \<times> model_Value) list \<Rightarrow> string \<Rightarrow> int \<Rightarrow> (string \<times> QueryResult) list \<Rightarrow>
   (string \<times> QueryResult) list \<times> panic option" where
  "mergeQueryResult_loop [] backend now qrs = (qrs, None)"
| "mergeQueryResult_loop ((ruleKey, v) # rest) backend now qrs =
     (let result = (case map_of qrs ruleKey of None \<Rightarrow> zeroQueryResult | Some r \<Rightarrow> r);
          result1 = result\<lparr>UpdateTime := now\<rparr> in
      case qrValue result1 of
        None \<Rightarrow>
          mergeQueryResult_loop rest backend now
            (AList.update ruleKey (result1\<lparr>qrValue := Some v\<rparr>) qrs)
      | Some cur \<Rightarrow>
          (case mergeValue cur v backend of
             Inl p \<Rightarrow> (qrs, Some p)
           | Inr merged \<Rightarrow>
               mergeQueryResult_loop rest backend now
                 (AList.update ruleKey (result1\<lparr>qrValue := Some merged\<rparr>) qrs)))"

definition mergeQueryResult ::
  "(string \<times> model_Value) list \<Rightarrow> string \<Rightarrow> int \<Rightarrow> BackendReader \<Rightarrow> BackendReader \<times> panic option" where
  "mergeQueryResult backendValues backend now br =
     (let r = mergeQueryResult_loop backendValues backend now (queryResults br) in
      (br\<lparr>queryResults := fst r\<rparr>, snd r))"

subsection \<open>Purging and merging the history of the reader\<close>

text \<open>
  The method \<open>purgeHistory\<close> of the reader (the function of the same name on one slice is
  above): the history of a removed rule is deleted, every other backend history is
  purged with the rule's retention and deleted when both of its slices are empty.
\<close>

definition purgeBackend ::
  "QueryRule \<Rightarrow> Time \<Rightarrow> string \<times> backendHistory \<Rightarrow> (string \<times> backendHistory) list \<Rightarrow>
   (string \<times> backendHistory) list" where
  "purgeBackend rule now kb ruleHistory =
     (let backend = fst kb;
          bh = (snd kb)\<lparr>Step1History := purgeHistory (Step1History (snd kb)) (Retention rule) now\<rparr>;
          bh1 = bh\<lparr>Step2History := purgeHistory (Step2History bh) (Retention rule) now\<rparr> in
      if length (Step1History bh1) = 0 \<and> length (Step2History bh1) = 0
      then AList.delete backend ruleHistory
      else AList.update backend bh1 ruleHistory)"

definition purgeRule ::
  "(string \<times> QueryRule) list \<Rightarrow> Time \<Rightarrow> string \<times> (string \<times> backendHistory) list \<Rightarrow>
   (string \<times> (string \<times> backendHistory) list) list \<Rightarrow> (string \<times> (string \<times> backendHistory) list) list" where
  "purgeRule rules now kr h =
     (case map_of rules (fst kr) of
        None \<Rightarrow> AList.delete (fst kr) h
      | Some rule \<Rightarrow> AList.update (fst kr) (fold (purgeBackend rule now) (snd kr) (snd kr)) h)"

definition BackendReader_purgeHistory :: "Time \<Rightarrow> BackendReader \<Rightarrow> BackendReader" where
  "BackendReader_purgeHistory now br =
     br\<lparr>history := fold (purgeRule (queryRules br) now) (history br) (history br)\<rparr>"

text \<open>
  \<open>mergeHistory\<close>. The two conditions of the source, one for each slice: the local slice
  is replaced when it is empty, or when the new slice is not empty and its last
  timestamp is after the last timestamp of the local one.
\<close>

definition takesNew :: "SamplePair list \<Rightarrow> SamplePair list \<Rightarrow> bool" where
  "takesNew localH newH =
     (length localH = 0 \<or>
      (length newH > 0 \<and> Timestamp (last newH) > Timestamp (last localH)))"

definition mergeBackendHistory :: "backendHistory \<Rightarrow> backendHistory \<Rightarrow> backendHistory" where
  "mergeBackendHistory bh newBh =
     (let bh1 = (if takesNew (Step1History bh) (Step1History newBh)
                 then bh\<lparr>Step1History := Step1History newBh\<rparr> else bh);
          bh2 = (if takesNew (Step2History bh1) (Step2History newBh)
                 then bh1\<lparr>Step2History := Step2History newBh\<rparr> else bh1)
      in bh2)"

definition mergeBackend ::
  "string \<times> backendHistory \<Rightarrow> (string \<times> backendHistory) list \<Rightarrow> (string \<times> backendHistory) list" where
  "mergeBackend kb ruleHistory =
     (case map_of ruleHistory (fst kb) of
        None \<Rightarrow> AList.update (fst kb) (snd kb) ruleHistory
      | Some bh \<Rightarrow> AList.update (fst kb) (mergeBackendHistory bh (snd kb)) ruleHistory)"

definition mergeRule ::
  "string \<times> (string \<times> backendHistory) list \<Rightarrow> (string \<times> (string \<times> backendHistory) list) list \<Rightarrow>
   (string \<times> (string \<times> backendHistory) list) list" where
  "mergeRule kr h =
     (case map_of h (fst kr) of
        None \<Rightarrow> AList.update (fst kr) (snd kr) h
      | Some ruleHistory \<Rightarrow> AList.update (fst kr) (fold mergeBackend (snd kr) ruleHistory) h)"

definition mergeHistory ::
  "(string \<times> (string \<times> backendHistory) list) list \<Rightarrow> BackendReader \<Rightarrow> BackendReader" where
  "mergeHistory newHistory br = br\<lparr>history := fold mergeRule newHistory (history br)\<rparr>"

text \<open>\<open>marshalHistory\<close> keeps, for every rule, the backends that this owner has just read.\<close>

definition marshalHistory :: "string list \<Rightarrow> BackendReader \<Rightarrow> BackendReader" where
  "marshalHistory backends br =
     br\<lparr>marshalledHistory :=
          Some (map (\<lambda>kr. (fst kr, filter (\<lambda>kb. fst kb \<in> set backends) (snd kr))) (history br))\<rparr>"

subsection \<open>One round of reading\<close>

text \<open>
  What the network gives in one round. A scrape of one backend is the address, the
  metric families parsed from the filtered response (\<open>None\<close> when the request or the
  parser failed) and the two clock readings taken while it is processed. An owner's
  answer is an error, an empty body, or the unmarshalled history map.
\<close>

record scrape =
  addr :: string
  families :: "(string \<times> MetricFamily) list option"
  scrapedAt :: int
  mergedAt :: int

datatype ownerResp =
    RespError
  | RespEmpty
  | RespHistory "(string \<times> (string \<times> backendHistory) list) list"

definition collectAllNames :: "BackendReader \<Rightarrow> string list" where
  "collectAllNames br =
     fold (\<lambda>kr names. fold (\<lambda>name ns. if name \<in> set ns then ns else ns @ [name]) (Names (snd kr)) names)
       (queryRules br) []"

text \<open>
  The work of one pool goroutine of \<open>readFromBackends\<close>. The goroutines take the lock
  for each of the three steps; they are run here one backend after the other. A panic
  in the goroutine is recovered by the pool and the state stays as it is.
\<close>

definition scrapeBackend :: "scrape \<Rightarrow> BackendReader \<Rightarrow> BackendReader" where
  "scrapeBackend sc br =
     (case families sc of
        None \<Rightarrow> br
      | Some mf \<Rightarrow>
          (let br1 = metric2History mf (addr sc) (scrapedAt sc) br;
               result = history2Value (addr sc) br1
           in fst (mergeQueryResult result (addr sc) (mergedAt sc) br1)))"

definition readFromBackends :: "scrape list \<Rightarrow> BackendReader \<Rightarrow> BackendReader" where
  "readFromBackends scrapes br =
     (if length scrapes = 0 then br
      else if length (collectAllNames br) = 0 then br
      else marshalHistory (map addr scrapes) (fold scrapeBackend scrapes br))"

text \<open>
  \<open>readFromOwner\<close>: the fetched history is merged, then the results of every backend
  named in it are recomputed. Nothing recovers a panic of \<open>mergeQueryResult\<close> here: it
  ends the loop and the call, and the reader stays as it is at that point. The call
  gives the panic, or whether it returns an error.
\<close>

fun mergeBackendResults ::
  "string list \<Rightarrow> int \<Rightarrow> BackendReader \<Rightarrow> BackendReader \<times> panic option" where
  "mergeBackendResults [] now br = (br, None)"
| "mergeBackendResults (backend # rest) now br =
     (let r = mergeQueryResult (history2Value backend br) backend now br in
      case snd r of
        None \<Rightarrow> mergeBackendResults rest now (fst r)
      | Some p \<Rightarrow> (fst r, Some p))"

definition readFromOwner ::
  "ownerResp \<Rightarrow> int \<Rightarrow> BackendReader \<Rightarrow> BackendReader \<times> (panic + bool)" where
  "readFromOwner resp now br =
     (case resp of
        RespError \<Rightarrow> (br, Inr True)
      | RespEmpty \<Rightarrow> (br, Inr False)
      | RespHistory newHistory \<Rightarrow>
          (let backends = remdups (concat (map (\<lambda>kr. map fst (snd kr)) newHistory));
               r = mergeBackendResults backends now (mergeHistory newHistory br)
           in (fst r, case snd r of None \<Rightarrow> Inr False | Some p \<Rightarrow> Inl p)))"

text \<open>
  \<open>ReadMetrics\<close> after the election and the owners have been looked up: the answers of
  the other owners are merged, an owner reads its backends, the history is purged. The
  loop over the owners collects the errors and goes on; a panic unwinds out of it and
  out of \<open>ReadMetrics\<close>, and what is left of the round is not run.
\<close>

fun readFromOwners ::
  "(ownerResp \<times> int) list \<Rightarrow> BackendReader \<Rightarrow> BackendReader \<times> (panic + bool)" where
  "readFromOwners [] br = (br, Inr False)"
| "readFromOwners ((resp, now) # rest) br =
     (let r = readFromOwner resp now br in
      case snd r of
        Inl p \<Rightarrow> (fst r, Inl p)
      | Inr failed \<Rightarrow>
          (let r1 = readFromOwners rest (fst r)
           in (fst r1, case snd r1 of Inl p \<Rightarrow> Inl p | Inr failed1 \<Rightarrow> Inr (failed \<or> failed1))))"

text \<open>
  The scrapes are \<open>None\<close> when the topology could not be fetched: an owner then returns
  the error before it purges. The second component of the result is the panic, or
  whether an error is returned.
\<close>

definition ReadMetrics ::
  "(ownerResp \<times> int) list \<Rightarrow> scrape list option \<Rightarrow> Time \<Rightarrow> BackendReader \<Rightarrow>
   BackendReader \<times> (panic + bool)" where
  "ReadMetrics owners topology now br =
     (let r = readFromOwners owners br in
      case snd r of
        Inl p \<Rightarrow> (fst r, Inl p)
      | Inr failed \<Rightarrow>
          if isOwner (fst r) then
            (case topology of
               None \<Rightarrow> (fst r, Inr True)
             | Some scrapes \<Rightarrow>
                 (BackendReader_purgeHistory now (readFromBackends scrapes (fst r)), Inr failed))
          else (BackendReader_purgeHistory now (fst r), Inr failed))"

subsection \<open>Vocabulary for the properties of the reader\<close>

text \<open>The history stored for a rule and a backend, if there is one.\<close>

definition historyOf ::
  "(string \<times> (string \<times> backendHistory) list) list \<Rightarrow> string \<Rightarrow> string \<Rightarrow> backendHistory option" where
  "historyOf h ruleKey backend =
     (case map_of h ruleKey of None \<Rightarrow> None | Some rh \<Rightarrow> map_of rh backend)"

text \<open>
  An entry is in step when its two slices carry the same timestamps: \<open>metric2History\<close>
  writes an entry back only after it has appended a pair to each slice, both with the
  time of the scrape, and the purge cuts both slices with the same retention at the
  same time. A history, or the answer of an owner, is in step when all its entries are.
  The latest sample of an entry is the last pair of its first-step slice.
\<close>

definition inStep :: "backendHistory \<Rightarrow> bool" where
  "inStep bh = (map Timestamp (Step1History bh) = map Timestamp (Step2History bh))"

definition inStepRule :: "(string \<times> backendHistory) list \<Rightarrow> bool" where
  "inStepRule rh = list_all (\<lambda>kb. inStep (snd kb)) rh"

definition inStepHistory :: "(string \<times> (string \<times> backendHistory) list) list \<Rightarrow> bool" where
  "inStepHistory h = list_all (\<lambda>kr. inStepRule (snd kr)) h"

definition inStepResp :: "ownerResp \<Rightarrow> bool" where
  "inStepResp resp = (case resp of RespHistory h \<Rightarrow> inStepHistory h | _ \<Rightarrow> True)"

definition latest :: "backendHistory \<Rightarrow> int option" where
  "latest bh =
     (if length (Step1History bh) = 0 then None
      else Some (Timestamp (last (Step1History bh))))"




text \<open>
  The values that \<open>history2Value\<close> builds for a backend: a vector or a matrix of one
  element that carries the backend as its instance label.
\<close>

definition valueFor :: "string \<Rightarrow> model_Value \<Rightarrow> bool" where
  "valueFor backend v =
     (case v of
        Vector vec \<Rightarrow> (case vec of [s] \<Rightarrow> instanceLabel (sMetric s) = backend | _ \<Rightarrow> False)
      | Matrix mat \<Rightarrow> (case mat of [s] \<Rightarrow> instanceLabel (ssMetric s) = backend | _ \<Rightarrow> False)
      | _ \<Rightarrow> False)"

text \<open>The stored values are vectors and matrices only; true of the empty result map.\<close>

fun isSeries :: "model_Value \<Rightarrow> bool" where
  "isSeries (Vector vec) = True"
| "isSeries (Matrix mat) = True"
| "isSeries _ = False"

definition seriesOnly :: "(string \<times> QueryResult) list \<Rightarrow> bool" where
  "seriesOnly qrs =
     list_all (\<lambda>kr. case qrValue (snd kr) of None \<Rightarrow> True | Some v \<Rightarrow> isSeries v) qrs"

subsection \<open>A rule and two backends to run the reader on\<close>

text \<open>
  The rule of the spec's round-trip scenario: it consumes the families \<open>A\<close> and \<open>B\<close>,
  its first step is the quotient of their first values, its second step is the latest
  first-step value, and its result is a vector.
\<close>

definition ratioAB :: "(string \<times> MetricFamily) list \<Rightarrow> float64" where
  "ratioAB mfs =
     (case (map_of mfs ''A'', map_of mfs ''B'') of
        (Some a, Some b) \<Rightarrow>
          (case (mfValues a, mfValues b) of
             (Finite x # xs, Finite y # ys) \<Rightarrow> if y = 0 then NaN else Finite (x / y)
           | _ \<Rightarrow> NaN)
      | _ \<Rightarrow> NaN)"

definition latestValue :: "SamplePair list \<Rightarrow> float64" where
  "latestValue h = (case h of [] \<Rightarrow> NaN | p # ps \<Rightarrow> Value (last h))"

definition ruleR :: QueryRule where
  "ruleR = \<lparr>Names = [''A'', ''B''], Retention = 60000 * Millisecond, ResultType = ValVector,
            Metric2Value = ratioAB, Range2Value = latestValue\<rparr>"

definition ownerR :: BackendReader where
  "ownerR = (AddQueryRule ''R'' ruleR NewBackendReader)\<lparr>isOwner := True\<rparr>"




text \<open>
  A local history and the history fetched from an owner, for one rule: the fetched
  entry of \<open>b1:10080\<close> is the later one, the two entries of \<open>b2:10080\<close> end at the same
  time, \<open>b3:10080\<close> is known locally only and \<open>b4:10080\<close> to the owner only.
\<close>

definition entryAt :: "int \<Rightarrow> rat \<Rightarrow> backendHistory" where
  "entryAt ms v =
     \<lparr>Step1History = [\<lparr>Timestamp = ms, Value = Finite v\<rparr>],
      Step2History = [\<lparr>Timestamp = ms, Value = Finite v\<rparr>]\<rparr>"

definition localH :: "(string \<times> (string \<times> backendHistory) list) list" where
  "localH = [(''R'', [(''b1:10080'', entryAt 10 1), (''b2:10080'', entryAt 20 2),
                      (''b3:10080'', entryAt 15 3)])]"

definition fetchedH :: "(string \<times> (string \<times> backendHistory) list) list" where
  "fetchedH = [(''R'', [(''b1:10080'', entryAt 20 4), (''b2:10080'', entryAt 20 5),
                        (''b4:10080'', entryAt 5 6)])]"

section \<open>Traffic replay\<close>

subsection \<open>Arithmetic on float64 and on times\<close>

text \<open>
  The arithmetic the replay does on \<open>float64\<close>. The quotient of the progress is kept as
  the exact rational: counts below \<open>2 ^ 53\<close> convert exactly, and the quotient is only
  compared with 1. The two zeros are not told apart.
\<close>

definition f64_of_uint64 :: "64 word \<Rightarrow> float64" where
  "f64_of_uint64 w = Finite (of_nat (unat w))"

fun f64_div :: "float64 \<Rightarrow> float64 \<Rightarrow> float64" where
  "f64_div NaN _ = NaN"
| "f64_div _ NaN = NaN"
| "f64_div (Finite a) (Finite b) =
     (if b = 0 then (if a = 0 then NaN else if a > 0 then PosInf else NegInf)
      else Finite (a / b))"
| "f64_div (Finite a) _ = Finite 0"
| "f64_div PosInf (Finite b) = (if b \<ge> 0 then PosInf else NegInf)"
| "f64_div NegInf (Finite b) = (if b \<ge> 0 then NegInf else PosInf)"
| "f64_div _ _ = NaN"

text \<open>
  The pacer truncates its quotient to whole nanoseconds, which a rounding error can
  change, so its conversion and its division round as the hardware does: to the nearest
  double, ties to the even significand. A double has a significand of 53 bits; below
  \<open>2 ^ -1022\<close> the spacing stays \<open>2 ^ -1074\<close>, and a result whose exponent reaches 1024
  after the rounding (it is \<open>2 ^ 1024\<close> or more) is an infinity. \<open>ilog2\<close> is the binary
  exponent of a positive rational.
\<close>

definition ilog2 :: "rat \<Rightarrow> int" where
  "ilog2 x =
     (let k = bitlen (fst (quotient_of x)) - bitlen (snd (quotient_of x))
      in if 2 powi k \<le> x then k else k - 1)"

definition roundEven :: "rat \<Rightarrow> int" where
  "roundEven x =
     (let f = \<lfloor>x\<rfloor>; d = x - of_int f
      in if d < 1 / 2 then f else if 1 / 2 < d then f + 1 else if even f then f else f + 1)"

definition f64_round :: "rat \<Rightarrow> float64" where
  "f64_round x =
     (if x = 0 then Finite 0
      else
        let a = \<bar>x\<bar>;
            u = max (ilog2 a - 52) (- 1074);
            v = of_int (roundEven (a / 2 powi u)) * 2 powi u
        in if 0 < v \<and> 1024 \<le> ilog2 v then (if 0 < x then PosInf else NegInf)
           else Finite (if 0 < x then v else - v))"

definition f64_of_int64 :: "int \<Rightarrow> float64" where
  "f64_of_int64 i = f64_round (of_int i)"

fun f64_quotient :: "float64 \<Rightarrow> float64 \<Rightarrow> float64" where
  "f64_quotient NaN _ = NaN"
| "f64_quotient _ NaN = NaN"
| "f64_quotient (Finite a) (Finite b) =
     (if b = 0 then (if a = 0 then NaN else if a > 0 then PosInf else NegInf)
      else f64_round (a / b))"
| "f64_quotient (Finite a) _ = Finite 0"
| "f64_quotient PosInf (Finite b) = (if b \<ge> 0 then PosInf else NegInf)"
| "f64_quotient NegInf (Finite b) = (if b \<ge> 0 then NegInf else PosInf)"
| "f64_quotient _ _ = NaN"

text \<open>
  The conversion of a float to \<open>time.Duration\<close> truncates towards zero; for NaN, an
  infinity or a value outside of \<open>int64\<close> Go leaves the result to the implementation, and
  the smallest \<open>int64\<close> is what amd64 gives.
\<close>

definition minInt64 :: int where
  "minInt64 = - (2 ^ 63)"

definition maxInt64 :: int where
  "maxInt64 = 2 ^ 63 - 1"

fun Duration_of_f64 :: "float64 \<Rightarrow> Duration" where
  "Duration_of_f64 (Finite q) =
     (let t = (if q \<ge> 0 then \<lfloor>q\<rfloor> else \<lceil>q\<rceil>)
      in if minInt64 \<le> t \<and> t \<le> maxInt64 then t else minInt64)"
| "Duration_of_f64 _ = minInt64"

text \<open>\<open>Time.Sub\<close> saturates at the largest and the smallest duration.\<close>

definition Sub :: "Time \<Rightarrow> Time \<Rightarrow> Duration" where
  "Sub t u =
     (let d = t - u
      in if d > maxInt64 then maxInt64 else if d < minInt64 then minInt64 else d)"

subsection \<open>Commands, configuration and validation\<close>

text \<open>The command tags of \<open>command.go\<close> are bytes numbered from \<open>ComSleep = 0\<close>.\<close>

definition ComQuit :: "8 word" where
  "ComQuit = 1"

definition ComQuery :: "8 word" where
  "ComQuery = 3"

definition ComChangeUser :: "8 word" where
  "ComChangeUser = 17"

text \<open>
  Modelled from the spec: the declaration of \<open>cmd.Command\<close> is not among the sources.
  The replay reads its fields \<open>ConnID\<close>, \<open>StartTs\<close> and \<open>Type\<close>; the spec lists them with
  the payload, which the replay engine does not look at.
\<close>

record Command =
  ConnID :: "64 word"
  StartTs :: Time
  Type :: "8 word"
  Payload :: string

text \<open>
  Modelled from the spec: the decoder of the records is not among the sources. A record
  holds \<open>StartTs\<close> as \<open>int64(StartTsUnixNano)\<close>, the wall-clock time at which the proxy
  received the command in nanoseconds since the Unix epoch, which \<open>time.Unix(0, n)\<close> turns
  into the time of the command.
\<close>

definition Unix :: "int \<Rightarrow> int \<Rightarrow> Time" where
  "Unix sec nsec = (unixToInternal + sec) * 1000000000 + nsec"

definition decodeStartTs :: "64 word \<Rightarrow> Time" where
  "decodeStartTs n = Unix 0 (sint n)"

text \<open>
  A Go \<open>error\<close> that is not nil; a nil error is \<open>None\<close>. What \<open>command.Decode\<close> gives in
  one call: a command, \<open>io.EOF\<close>, or another error.
\<close>

datatype error = Error string

datatype decoded = Decoded Command | DecodeEOF | DecodeFailed error

text \<open>
  Modelled from the spec: the package \<open>conn\<close> is not among the sources. A value of the
  interface \<open>conn.Conn\<close> in the connection map is the nil interface, a nil pointer
  inside the interface (what the reflection test of \<open>executeCmd\<close> is for), or a worker,
  with the user name and the password that its backend connection uses.
\<close>

datatype Conn = NilConn | TypedNilConn | LiveConn string string

fun isLive :: "Conn \<Rightarrow> bool" where
  "isLive (LiveConn username password) = True"
| "isLive _ = False"

text \<open>
  The configuration. \<open>connCreator\<close> is the hook set by tests, \<open>None\<close> when it is nil;
  the reader and report hooks are part of the inputs of the functions below.
\<close>

record ReplayConfig =
  Input :: string
  Username :: string
  Password :: string
  Speed :: float64
  connCreator :: "(64 word \<Rightarrow> Conn) option"

text \<open>
  The bounds of the speed. The constant \<open>0.1\<close> is the double nearest to one tenth, and a
  double is below it exactly when it is below one tenth, so the comparison with the
  rational is the comparison of the code.
\<close>

definition minSpeed :: float64 where
  "minSpeed = Finite (1 / 10)"

definition maxSpeed :: float64 where
  "maxSpeed = Finite 10"

text \<open>What \<open>os.Stat\<close> answers for a path: an error, or whether the path is a directory.\<close>

datatype stat = StatError error | StatInfo bool

text \<open>
  \<open>Validate\<close> returns the error, or the configuration as it leaves it (the receiver is
  a pointer and a zero speed is overwritten).
\<close>

definition Validate :: "(string \<Rightarrow> stat) \<Rightarrow> ReplayConfig \<Rightarrow> error + ReplayConfig" where
  "Validate osStat c =
     (if Input c = [] then Inl (Error ''input is required'')
      else case osStat (Input c) of
          StatError e \<Rightarrow> Inl e
        | StatInfo isDir \<Rightarrow>
            if \<not> isDir then Inl (Error ''output should be a directory'')
            else if Username c = [] then Inl (Error ''username is required'')
            else if f64_eq (Speed c) (Finite 0) then Inr (c\<lparr>Speed := Finite 1\<rparr>)
            else if f64_lt (Speed c) minSpeed \<or> f64_gt (Speed c) maxSpeed
              then Inl (Error ''speed should be between 0.100000 and 10.000000'')
            else Inr c)"

subsection \<open>The state of a replay\<close>

text \<open>
  The fields of the Go struct that the claims are about, the two local variables of
  \<open>readCommands\<close> (the pacer is run one iteration at a time), and what the replay does
  to the outside: \<open>created\<close> lists the connection ids passed to the connection creator,
  \<open>executed\<close> the commands handed to \<open>ExecuteCmd\<close> of a worker, \<open>dispatched\<close> the calls
  of \<open>executeCmd\<close> with the time of the call; \<open>pacerRunning\<close> and \<open>drainRunning\<close> tell
  whether the two background tasks run; \<open>ctxDone\<close> is the cancellation of their context;
  \<open>clock\<close> is the current time. \<open>metaCmds\<close> is \<open>meta.Cmds\<close>; the declaration of
  \<open>store.Meta\<close> is not among the sources, and the count is taken as the unsigned 64-bit
  integer that the two counters beside it in the quotient are.
\<close>

record replay =
  cfg :: ReplayConfig
  metaCmds :: "64 word"
  conns :: "(64 word \<times> Conn) list"
  cancel :: bool
  creator :: "64 word \<Rightarrow> Conn"
  err :: "error option"
  startTime :: Time
  endTime :: Time
  progress :: float64
  replayedCmds :: "64 word"
  filteredCmds :: "64 word"
  connCount :: int
  captureStartTs :: Time
  replayStartTs :: Time
  ctxDone :: bool
  pacerRunning :: bool
  drainRunning :: bool
  created :: "64 word list"
  executed :: "Command list"
  dispatched :: "(Command \<times> Time) list"
  clock :: Time

definition NewReplay :: "Time \<Rightarrow> replay" where
  "NewReplay now =
     \<lparr>cfg = \<lparr>Input = [], Username = [], Password = [], Speed = Finite 0, connCreator = None\<rparr>,
      metaCmds = 0, conns = [], cancel = False, creator = (\<lambda>connID. NilConn), err = None,
      startTime = 0, endTime = 0, progress = Finite 0, replayedCmds = 0, filteredCmds = 0,
      connCount = 0, captureStartTs = 0, replayStartTs = 0, ctxDone = False,
      pacerRunning = False, drainRunning = False, created = [], executed = [],
      dispatched = [], clock = now\<rparr>"

text \<open>
  \<open>Start\<close>. The inputs beside the configuration: the answer of \<open>os.Stat\<close>, the command
  count of the meta file (0 when it cannot be read) and the error of starting the
  report. The default connection creator builds a worker with the user name and the
  password of the configuration.
\<close>

definition Start ::
  "ReplayConfig \<Rightarrow> (string \<Rightarrow> stat) \<Rightarrow> 64 word \<Rightarrow> error option \<Rightarrow> replay \<Rightarrow> error option \<times> replay" where
  "Start c osStat cmdsInMeta reportErr r =
     (case Validate osStat c of
        Inl e \<Rightarrow> (Some e, r)
      | Inr c1 \<Rightarrow>
          (let r1 = r\<lparr>cfg := c1, metaCmds := cmdsInMeta, startTime := clock r, endTime := 0,
                      progress := Finite 0, conns := [],
                      creator := (case connCreator c1 of
                                    None \<Rightarrow> (\<lambda>connID. LiveConn (Username c1) (Password c1))
                                  | Some f \<Rightarrow> f),
                      cancel := True, ctxDone := False\<rparr>
           in case reportErr of
                Some e \<Rightarrow> (Some e, r1)
              | None \<Rightarrow>
                  (None, r1\<lparr>pacerRunning := True, drainRunning := True,
                             captureStartTs := 0, replayStartTs := 0\<rparr>)))"

definition ratio :: "replay \<Rightarrow> float64" where
  "ratio r = f64_div (f64_of_uint64 (replayedCmds r + filteredCmds r)) (f64_of_uint64 (metaCmds r))"

definition Progress :: "replay \<Rightarrow> (float64 \<times> error option) \<times> replay" where
  "Progress r =
     (let r1 = (if metaCmds r > 0 then r\<lparr>progress := ratio r\<rparr> else r)
      in ((progress r1, err r1), r1))"

definition Stop :: "error option \<Rightarrow> replay \<Rightarrow> replay" where
  "Stop e r =
     (if IsZero (startTime r) then r
      else
        let r1 = (if cancel r then r\<lparr>ctxDone := True, cancel := False\<rparr> else r);
            r2 = r1\<lparr>endTime := clock r1\<rparr>;
            r3 = (case e of
                    Some e1 \<Rightarrow>
                      (let r4 = r2\<lparr>err := Some e1\<rparr>
                       in if metaCmds r4 > 0 then r4\<lparr>progress := ratio r4\<rparr> else r4)
                  | None \<Rightarrow> r2\<lparr>progress := Finite 1\<rparr>)
        in r3\<lparr>startTime := 0\<rparr>)"

definition Close :: "replay \<Rightarrow> replay" where
  "Close r = Stop (Some (Error ''shutting down'')) r"

subsection \<open>Dispatch and disconnect\<close>

definition executeCmd :: "Command \<Rightarrow> replay \<Rightarrow> replay" where
  "executeCmd command r =
     (case map_of (conns r) (ConnID command) of
        None \<Rightarrow>
          (let conn = creator r (ConnID command);
               r1 = r\<lparr>conns := AList.update (ConnID command) conn (conns r),
                       connCount := connCount r + 1,
                       created := created r @ [ConnID command]\<rparr>
           in if isLive conn then r1\<lparr>executed := executed r1 @ [command]\<rparr> else r1)
      | Some conn \<Rightarrow>
          if isLive conn then r\<lparr>executed := executed r @ [command]\<rparr> else r)"

text \<open>What \<open>readCloseCh\<close> does with a connection id received from the close channel.\<close>

definition closeConn :: "64 word \<Rightarrow> replay \<Rightarrow> replay" where
  "closeConn c r =
     (case map_of (conns r) c of
        None \<Rightarrow> r
      | Some conn \<Rightarrow>
          if isLive conn
          then r\<lparr>conns := AList.update c NilConn (conns r), connCount := connCount r - 1\<rparr>
          else r)"

text \<open>
  One iteration of the loop of \<open>readCloseCh\<close>: it returns once the context is cancelled
  and no connection is counted; otherwise it receives a connection id, or the 100
  milliseconds pass (\<open>None\<close>).
\<close>

definition readCloseCh_iter :: "64 word option \<Rightarrow> replay \<Rightarrow> replay" where
  "readCloseCh_iter received r =
     (if \<not> drainRunning r then r
      else if ctxDone r \<and> connCount r \<le> 0 then r\<lparr>drainRunning := False\<rparr>
      else case received of None \<Rightarrow> r | Some c \<Rightarrow> closeConn c r)"

subsection \<open>The pacer\<close>

text \<open>
  The interval the pacer expects between the first command and this one, scaled by the
  speed unless the speed is 1, and the time it sleeps before the command: the deficit
  when the time since the first command plus one microsecond is below that interval.
  The time since the first command is read from a clock that does not run backwards;
  adding the microsecond to it stays within \<open>int64\<close> for 292 years of replay, and the
  deficit is only taken when it is positive.
\<close>

definition expectedInterval :: "replay \<Rightarrow> Command \<Rightarrow> Duration" where
  "expectedInterval r command =
     (let e = Sub (StartTs command) (captureStartTs r)
      in if \<not> f64_eq (Speed (cfg r)) (Finite 1)
         then Duration_of_f64 (f64_quotient (f64_of_int64 e) (Speed (cfg r)))
         else e)"

definition pace :: "replay \<Rightarrow> Command \<Rightarrow> Duration option" where
  "pace r command =
     (let expected = expectedInterval r command;
          curInterval = Sub (clock r) (replayStartTs r)
      in if curInterval + Microsecond < expected then Some (expected - curInterval) else None)"

text \<open>
  What the outside gives to one iteration of the loop of \<open>readCommands\<close>: the result of
  decoding, the time that passes before the pacer reads the clock, and a call of \<open>Stop\<close>
  by another goroutine that arrives while the pacer waits (its error and the time after
  the reading of the clock at which it arrives), if there is one.
\<close>

record readEnv =
  item :: decoded
  delay :: nat
  interrupt :: "(nat \<times> error option) option"

text \<open>
  The part of an iteration between the decoding and the test of the context: the first
  command sets the two start times, a later command is paced; the pacer then proceeds
  when the timer fires, or when the context is cancelled by the call of \<open>Stop\<close>.
\<close>

definition pacing :: "readEnv \<Rightarrow> Command \<Rightarrow> replay \<Rightarrow> replay" where
  "pacing env command r =
     (let r1 = r\<lparr>clock := clock r + int (delay env)\<rparr> in
      if IsZero (captureStartTs r1) then
        (let r2 = r1\<lparr>captureStartTs := StartTs command, replayStartTs := clock r1\<rparr>
         in case interrupt env of None \<Rightarrow> r2 | Some (t, e) \<Rightarrow> Stop e r2)
      else
        (case pace r1 command of
           None \<Rightarrow> (case interrupt env of None \<Rightarrow> r1 | Some (t, e) \<Rightarrow> Stop e r1)
         | Some d \<Rightarrow>
             (case interrupt env of
                None \<Rightarrow> r1\<lparr>clock := clock r1 + d\<rparr>
              | Some (t, e) \<Rightarrow> Stop e (r1\<lparr>clock := clock r1 + min d (int t)\<rparr>))))"

definition dispatch :: "Command \<Rightarrow> replay \<Rightarrow> replay" where
  "dispatch command r =
     executeCmd command
       (r\<lparr>replayedCmds := replayedCmds r + 1, dispatched := dispatched r @ [(command, clock r)]\<rparr>)"

definition readCommands_iter :: "readEnv \<Rightarrow> replay \<Rightarrow> replay" where
  "readCommands_iter env r =
     (if \<not> pacerRunning r then r
      else if ctxDone r then r\<lparr>pacerRunning := False\<rparr>
      else case item env of
          DecodeEOF \<Rightarrow> (Stop None r)\<lparr>pacerRunning := False\<rparr>
        | DecodeFailed e \<Rightarrow> (Stop (Some e) r)\<lparr>pacerRunning := False\<rparr>
        | Decoded command \<Rightarrow>
            if Type command = ComChangeUser then r\<lparr>filteredCmds := filteredCmds r + 1\<rparr>
            else
              (let r3 = pacing env command r
               in if ctxDone r3 then r3\<lparr>pacerRunning := False\<rparr> else dispatch command r3))"

subsection \<open>Runs of a replay\<close>

text \<open>
  After \<open>Start\<close> the pacer, the close-drain task and the callers of \<open>Stop\<close> and
  \<open>Progress\<close> run side by side, each step under the lock of the replay; a run is the
  list of their steps in the order in which they happen. \<open>Wait\<close> lets time pass.
\<close>

datatype event =
    Read readEnv
  | Drain "64 word option"
  | CallStop "error option"
  | CallProgress
  | Wait nat

fun step :: "event \<Rightarrow> replay \<Rightarrow> replay" where
  "step (Read env) r = readCommands_iter env r"
| "step (Drain received) r = readCloseCh_iter received r"
| "step (CallStop e) r = Stop e r"
| "step CallProgress r = snd (Progress r)"
| "step (Wait d) r = r\<lparr>clock := clock r + int d\<rparr>"

definition run :: "event list \<Rightarrow> replay \<Rightarrow> replay" where
  "run evs r = fold step evs r"

subsection \<open>A replay to run\<close>

text \<open>
  A file system in which \<open>/tmp\<close> is a directory and nothing else exists, a configuration
  with a given speed, the replay that \<open>Start\<close> leaves at a given time, commands of one
  connection, and iterations of the pacer in which reading and decoding take no time
  and nobody calls \<open>Stop\<close>.
\<close>

definition tmpOnly :: "string \<Rightarrow> stat" where
  "tmpOnly path =
     (if path = ''/tmp'' then StatInfo True else StatError (Error ''no such file or directory''))"

definition configWith :: "float64 \<Rightarrow> ReplayConfig" where
  "configWith speed =
     \<lparr>Input = ''/tmp'', Username = ''u1'', Password = ''p1'', Speed = speed, connCreator = None\<rparr>"

definition replayStart :: Time where
  "replayStart = UnixMilli 1700000000000"

definition captureStart :: Time where
  "captureStart = UnixMilli 1600000000000"

definition started :: "float64 \<Rightarrow> 64 word \<Rightarrow> replay" where
  "started speed cmdsInMeta =
     snd (Start (configWith speed) tmpOnly cmdsInMeta None (NewReplay replayStart))"

definition query :: "64 word \<Rightarrow> Time \<Rightarrow> Command" where
  "query c ts = \<lparr>ConnID = c, StartTs = ts, Type = ComQuery, Payload = ''SELECT 1''\<rparr>"

definition changeUser :: "64 word \<Rightarrow> Time \<Rightarrow> Command" where
  "changeUser c ts = \<lparr>ConnID = c, StartTs = ts, Type = ComChangeUser, Payload = ''u2''\<rparr>"

definition readAtOnce :: "decoded \<Rightarrow> event" where
  "readAtOnce d = Read \<lparr>item = d, delay = 0, interrupt = None\<rparr>"

section \<open>Capture filter\<close>

subsection \<open>The lexer\<close>

text \<open>
  Modelled from the spec: the package \<open>lex\<close> (\<open>NewLexer\<close>, \<open>NextToken\<close>) is not among the
  sources. The spec describes a minimal lexer that tokenizes SQL keywords, skips
  whitespace and comments, and makes the matching case-insensitive. Here a token is a
  maximal run of ASCII letters, digits and underscores, returned in upper case; the
  comments are \<open>/* ... */\<close>, and \<open>--\<close> or \<open>#\<close> up to the end of the line; at any other
  character, and at the end of the text, the token is empty and the lexer stays where
  it is. The lexer is the text that is still unread.
\<close>

definition isSpace :: "char \<Rightarrow> bool" where
  "isSpace c = (c = CHR '' '' \<or> (9 \<le> (of_char c :: nat) \<and> (of_char c :: nat) \<le> 13))"

definition isWordChar :: "char \<Rightarrow> bool" where
  "isWordChar c =
     (let n = (of_char c :: nat)
      in (65 \<le> n \<and> n \<le> 90) \<or> (97 \<le> n \<and> n \<le> 122) \<or> (48 \<le> n \<and> n \<le> 57) \<or> n = 95)"

definition toUpper :: "char \<Rightarrow> char" where
  "toUpper c =
     (let n = (of_char c :: nat) in if 97 \<le> n \<and> n \<le> 122 then char_of (n - 32) else c)"

datatype scanning = InCode | InLineComment | InBlockComment

fun skipSpaceAndComments :: "scanning \<Rightarrow> string \<Rightarrow> string" where
  "skipSpaceAndComments InCode (c # d # s) =
     (if isSpace c then skipSpaceAndComments InCode (d # s)
      else if c = CHR ''#'' then skipSpaceAndComments InLineComment (d # s)
      else if c = CHR ''-'' \<and> d = CHR ''-'' then skipSpaceAndComments InLineComment s
      else if c = CHR ''/'' \<and> d = CHR ''*'' then skipSpaceAndComments InBlockComment s
      else c # d # s)"
| "skipSpaceAndComments InCode [c] = (if isSpace c \<or> c = CHR ''#'' then [] else [c])"
| "skipSpaceAndComments InCode [] = []"
| "skipSpaceAndComments InLineComment (c # s) =
     (if c = CHR 0x0A then skipSpaceAndComments InCode s
      else skipSpaceAndComments InLineComment s)"
| "skipSpaceAndComments InLineComment [] = []"
| "skipSpaceAndComments InBlockComment (c # d # s) =
     (if c = CHR ''*'' \<and> d = CHR ''/'' then skipSpaceAndComments InCode s
      else skipSpaceAndComments InBlockComment (d # s))"
| "skipSpaceAndComments InBlockComment [c] = []"
| "skipSpaceAndComments InBlockComment [] = []"

record Lexer =
  unread :: string

definition NewLexer :: "string \<Rightarrow> Lexer" where
  "NewLexer sql = \<lparr>unread = sql\<rparr>"

definition NextToken :: "Lexer \<Rightarrow> string \<times> Lexer" where
  "NextToken lexer =
     (let s = skipSpaceAndComments InCode (unread lexer)
      in (map toUpper (takeWhile isWordChar s), \<lparr>unread = dropWhile isWordChar s\<rparr>))"

subsection \<open>IsSensitiveSQL\<close>

definition sensitiveKeywords :: "string list list" where
  "sensitiveKeywords =
     [[''CREATE'', ''USER''], [''ALTER'', ''USER''], [''SET'', ''PASSWORD''], [''GRANT''],
      [''BACKUP''], [''RESTORE''], [''IMPORT''], [''LOAD'', ''DATA'']]"

text \<open>
  The loop of \<open>IsSensitiveSQL\<close> over the rows of the table. The variable \<open>keyword\<close> is
  assigned the second token inside the loop, and the loop goes on with it when the
  second token is not the one of the row. No row of the table is empty (\<open>kw[0]\<close> would
  panic on an empty row).
\<close>

fun matchKeywords :: "string list list \<Rightarrow> string \<Rightarrow> Lexer \<Rightarrow> bool" where
  "matchKeywords [] keyword lexer = False"
| "matchKeywords ([] # kws) keyword lexer = False"
| "matchKeywords ((k0 # ks) # kws) keyword lexer =
     (if keyword \<noteq> k0 then matchKeywords kws keyword lexer
      else if length (k0 # ks) \<le> 1 then True
      else
        (let t = NextToken lexer; keyword1 = fst t
         in if keyword1 = (k0 # ks) ! 1 then True
            else matchKeywords kws keyword1 (snd t)))"

definition IsSensitiveSQL :: "string \<Rightarrow> bool" where
  "IsSensitiveSQL sql =
     (let t = NextToken (NewLexer sql); keyword = fst t
      in if length keyword = 0 then False
         else matchKeywords sensitiveKeywords keyword (snd t))"

text \<open>
  What the spec asks for: the leading keywords of the statement, that is its first
  token or its first two tokens, are one of the sensitive prefixes.
\<close>

definition beginsWithSensitivePrefix :: "string \<Rightarrow> bool" where
  "beginsWithSensitivePrefix sql =
     (let t1 = NextToken (NewLexer sql); t2 = NextToken (snd t1)
      in [fst t1] \<in> set sensitiveKeywords \<or> [fst t1, fst t2] \<in> set sensitiveKeywords)"

text \<open>The statements of the spec's filter scenario; \<open>CHR 0x27\<close> is the single quote.\<close>

definition createUserSQL :: string where
  "createUserSQL = ''CREATE USER x IDENTIFIED BY '' @ [CHR 0x27] @ ''p'' @ [CHR 0x27]"

definition setPasswordSQL :: string where
  "setPasswordSQL = ''set password for u = '' @ [CHR 0x27] @ ''x'' @ [CHR 0x27]"

definition backupSQL :: string where
  "backupSQL = ''BACKUP DATABASE d TO '' @ [CHR 0x27] @ ''s3://bucket/dir'' @ [CHR 0x27]"

section \<open>Properties of purgeHistory\<close>

lemma firstKept_none:
  "list_all (expired retention now) ps \<Longrightarrow> firstKept ps retention now i = -1"
  by (induction ps arbitrary: i) (auto simp: expired_def)

lemma firstKept_some:
  "\<not> list_all (expired retention now) ps \<Longrightarrow>
   firstKept ps retention now i = int (i + length (takeWhile (expired retention now) ps))"
  by (induction ps arbitrary: i) (auto simp: expired_def)

lemma take_copy_slice_drop:
  "k \<le> length h \<Longrightarrow> take (length h - k) (copy_slice h (drop k h)) = drop k h"
  by (simp add: copy_slice_def)

lemma purgeHistory_dropWhile:
  "purgeHistory h retention now = dropWhile (expired retention now) h"
proof (cases "list_all (expired retention now) h")
  case True
  then have d: "dropWhile (expired retention now) h = []"
    by (simp add: list_all_iff)
  have f: "firstKept h retention now 0 = -1"
    using True by (rule firstKept_none)
  show ?thesis
    unfolding purgeHistory_def f d by simp
next
  case False
  let ?k = "length (takeWhile (expired retention now) h)"
  have idx: "firstKept h retention now 0 = int ?k"
    using False by (simp add: firstKept_some)
  have k: "?k \<le> length h"
    by (rule length_takeWhile_le)
  have d: "drop ?k h = dropWhile (expired retention now) h"
    by (rule dropWhile_eq_drop [symmetric])
  show ?thesis
  proof (cases "?k = 0")
    case True
    then have "takeWhile (expired retention now) h = []" by simp
    then have "dropWhile (expired retention now) h = h"
      by (metis append_Nil takeWhile_dropWhile_id)
    with True idx show ?thesis by (simp add: purgeHistory_def)
  next
    case False
    then show ?thesis
      unfolding purgeHistory_def idx Let_def
      using take_copy_slice_drop [OF k] d by simp
  qed
qed

lemma sorted_dropWhile_expired:
  "sorted (map Timestamp h) \<Longrightarrow>
   dropWhile (expired retention now) h = filter (\<lambda>p. \<not> expired retention now p) h"
proof (induction h)
  case Nil
  then show ?case by simp
next
  case (Cons p ps)
  show ?case
  proof (cases "expired retention now p")
    case True
    with Cons show ?thesis by simp
  next
    case False
    have "\<not> expired retention now q" if "q \<in> set ps" for q
    proof -
      from Cons.prems that have "Timestamp p \<le> Timestamp q" by auto
      with False show ?thesis
        by (auto simp: expired_def After_def Add_def UnixMilli_def)
    qed
    then have "filter (\<lambda>p. \<not> expired retention now p) ps = ps"
      by (simp add: filter_id_conv)
    with False show ?thesis by simp
  qed
qed

text \<open>
  Claim C7. For a slice with non-decreasing timestamps, \<open>purgeHistory\<close> removes exactly
  the leading pairs whose timestamp plus the retention is not after \<open>now\<close> (the slice is
  the removed expired prefix followed by the result, and the result is the subsequence
  of the pairs that are not expired, in order), and applying it twice gives the same
  slice as applying it once.
\<close>

theorem purgeHistory_removes_expired_prefix:
  assumes "sorted (map Timestamp h)"
  shows "h = takeWhile (expired retention now) h @ purgeHistory h retention now \<and>
    purgeHistory h retention now = filter (\<lambda>p. \<not> expired retention now p) h \<and>
    purgeHistory (purgeHistory h retention now) retention now = purgeHistory h retention now"
proof -
  have "h = takeWhile (expired retention now) h @ purgeHistory h retention now"
    by (simp add: purgeHistory_dropWhile)
  moreover have "purgeHistory h retention now = filter (\<lambda>p. \<not> expired retention now p) h"
    using assms by (simp add: purgeHistory_dropWhile sorted_dropWhile_expired)
  moreover have "purgeHistory (purgeHistory h retention now) retention now = purgeHistory h retention now"
    by (simp add: purgeHistory_dropWhile)
  ultimately show ?thesis by blast
qed

theorem purgeHistory_removes_expired_prefix_witness:
  "sorted (map Timestamp
     [\<lparr>Timestamp = 1000, Value = Finite 1\<rparr>, \<lparr>Timestamp = 2000, Value = Finite 2\<rparr>,
      \<lparr>Timestamp = 3000, Value = Finite 3\<rparr>]) \<and>
   purgeHistory
     [\<lparr>Timestamp = 1000, Value = Finite 1\<rparr>, \<lparr>Timestamp = 2000, Value = Finite 2\<rparr>,
      \<lparr>Timestamp = 3000, Value = Finite 3\<rparr>] (1000 * Millisecond) (UnixMilli 2500) =
     [\<lparr>Timestamp = 2000, Value = Finite 2\<rparr>, \<lparr>Timestamp = 3000, Value = Finite 3\<rparr>] \<and>
   purgeHistory (purgeHistory
     [\<lparr>Timestamp = 1000, Value = Finite 1\<rparr>, \<lparr>Timestamp = 2000, Value = Finite 2\<rparr>,
      \<lparr>Timestamp = 3000, Value = Finite 3\<rparr>] (1000 * Millisecond) (UnixMilli 2500))
     (1000 * Millisecond) (UnixMilli 2500) =
     [\<lparr>Timestamp = 2000, Value = Finite 2\<rparr>, \<lparr>Timestamp = 3000, Value = Finite 3\<rparr>]"
proof -
  let ?h = "[\<lparr>Timestamp = 1000, Value = Finite 1\<rparr>, \<lparr>Timestamp = 2000, Value = Finite 2\<rparr>,
      \<lparr>Timestamp = 3000, Value = Finite 3\<rparr>]"
  have s: "sorted (map Timestamp ?h)" by simp
  have f: "filter (\<lambda>p. \<not> expired (1000 * Millisecond) (UnixMilli 2500) p) ?h =
     [\<lparr>Timestamp = 2000, Value = Finite 2\<rparr>, \<lparr>Timestamp = 3000, Value = Finite 3\<rparr>]"
    by (simp add: expired_def After_def Add_def UnixMilli_def Millisecond_def unixToInternal_def)
  note t = purgeHistory_removes_expired_prefix [OF s, of "1000 * Millisecond" "UnixMilli 2500"]
  from t have p: "purgeHistory ?h (1000 * Millisecond) (UnixMilli 2500) =
      filter (\<lambda>p. \<not> expired (1000 * Millisecond) (UnixMilli 2500) p) ?h"
    by blast
  from t have i: "purgeHistory (purgeHistory ?h (1000 * Millisecond) (UnixMilli 2500))
      (1000 * Millisecond) (UnixMilli 2500) = purgeHistory ?h (1000 * Millisecond) (UnixMilli 2500)"
    by blast
  show ?thesis
    unfolding i unfolding p f using s by blast
qed

section \<open>Properties of GetQueryResult\<close>

text \<open>
  Claim C10. \<open>GetQueryResult\<close> has no failing branch: for every key it returns a result
  and leaves the reader (rules, results, history) as it was. For a key that has no
  stored result it returns the zero result (nil value, zero update time, nil error),
  otherwise the stored result.
\<close>

theorem GetQueryResult_never_fails:
  "snd (GetQueryResult key br) = br \<and>
   (key \<notin> fst ` set (queryResults br) \<longrightarrow>
      fst (GetQueryResult key br) = \<lparr>qrValue = None, UpdateTime = 0, Err = None\<rparr>) \<and>
   (\<forall>r. map_of (queryResults br) key = Some r \<longrightarrow> fst (GetQueryResult key br) = r)"
proof -
  have "map_of (queryResults br) key = None" if "key \<notin> fst ` set (queryResults br)"
    using that by (simp add: map_of_eq_None_iff)
  then show ?thesis
    by (auto simp: GetQueryResult_def zeroQueryResult_def)
qed

theorem GetQueryResult_never_fails_witness:
  "''S'' \<notin> fst ` set (queryResults ownerR) \<and>
   GetQueryResult ''S'' ownerR = (\<lparr>qrValue = None, UpdateTime = 0, Err = None\<rparr>, ownerR) \<and>
   map_of (queryResults (ownerR\<lparr>queryResults := [(''R'', \<lparr>qrValue = Some (Vector []), UpdateTime = 7, Err = None\<rparr>)]\<rparr>)) ''R''
     = Some \<lparr>qrValue = Some (Vector []), UpdateTime = 7, Err = None\<rparr> \<and>
   fst (GetQueryResult ''R'' (ownerR\<lparr>queryResults := [(''R'', \<lparr>qrValue = Some (Vector []), UpdateTime = 7, Err = None\<rparr>)]\<rparr>))
     = \<lparr>qrValue = Some (Vector []), UpdateTime = 7, Err = None\<rparr>"
proof -
  have a: "''S'' \<notin> fst ` set (queryResults ownerR)"
    by (simp add: ownerR_def AddQueryRule_def NewBackendReader_def)
  let ?br = "ownerR\<lparr>queryResults := [(''R'', \<lparr>qrValue = Some (Vector []), UpdateTime = 7, Err = None\<rparr>)]\<rparr>"
  have b: "map_of (queryResults ?br) ''R'' = Some \<lparr>qrValue = Some (Vector []), UpdateTime = 7, Err = None\<rparr>"
    by simp
  from GetQueryResult_never_fails [of "''S''" ownerR] a
  have 1: "GetQueryResult ''S'' ownerR = (\<lparr>qrValue = None, UpdateTime = 0, Err = None\<rparr>, ownerR)"
    by (simp add: prod_eq_iff)
  from GetQueryResult_never_fails [of "''R''" ?br] b
  have 2: "fst (GetQueryResult ''R'' ?br) = \<lparr>qrValue = Some (Vector []), UpdateTime = 7, Err = None\<rparr>"
    by blast
  from a b 1 2 show ?thesis by blast
qed

section \<open>Properties of mergeHistory\<close>

lemma fold_invariant:
  assumes "\<And>x s. P s \<Longrightarrow> P (f x s)" and "P s"
  shows "P (fold f xs s)"
  using assms(2) by (induction xs arbitrary: s) (auto intro: assms(1))

lemma map_of_fold_mergeBackend:
  "distinct (map fst new) \<Longrightarrow>
   map_of (fold mergeBackend new rh) b =
     (case map_of new b of
        None \<Rightarrow> map_of rh b
      | Some nb \<Rightarrow> (case map_of rh b of None \<Rightarrow> Some nb
                    | Some bh \<Rightarrow> Some (mergeBackendHistory bh nb)))"
proof (induction new arbitrary: rh)
  case Nil
  then show ?case by simp
next
  case (Cons kb new)
  obtain k nb where kb: "kb = (k, nb)" by (cases kb)
  from Cons.prems kb have d: "distinct (map fst new)" and k: "k \<notin> fst ` set new" by auto
  from k have kn: "map_of new k = None" by (simp add: map_of_eq_None_iff)
  show ?case
  proof (cases "b = k")
    case True
    with Cons.IH [OF d] kn kb show ?thesis
      by (simp add: mergeBackend_def update_conv' split: option.splits)
  next
    case False
    with Cons.IH [OF d] kb show ?thesis
      by (simp add: mergeBackend_def update_conv' split: option.splits)
  qed
qed

lemma map_of_fold_mergeRule:
  "distinct (map fst new) \<Longrightarrow>
   map_of (fold mergeRule new h) r =
     (case map_of new r of
        None \<Rightarrow> map_of h r
      | Some nrh \<Rightarrow> (case map_of h r of None \<Rightarrow> Some nrh
                    | Some rh \<Rightarrow> Some (fold mergeBackend nrh rh)))"
proof (induction new arbitrary: h)
  case Nil
  then show ?case by simp
next
  case (Cons kr new)
  obtain k nrh where kr: "kr = (k, nrh)" by (cases kr)
  from Cons.prems kr have d: "distinct (map fst new)" and k: "k \<notin> fst ` set new" by auto
  from k have kn: "map_of new k = None" by (simp add: map_of_eq_None_iff)
  show ?case
  proof (cases "r = k")
    case True
    with Cons.IH [OF d] kn kr show ?thesis
      by (simp add: mergeRule_def update_conv' split: option.splits)
  next
    case False
    with Cons.IH [OF d] kr show ?thesis
      by (simp add: mergeRule_def update_conv' split: option.splits)
  qed
qed


lemma historyOf_mergeHistory:
  assumes "distinct (map fst new)"
    and "\<forall>kr \<in> set new. distinct (map fst (snd kr))"
  shows "historyOf (history (mergeHistory new br)) r b =
     (case historyOf new r b of
        None \<Rightarrow> historyOf (history br) r b
      | Some n \<Rightarrow> (case historyOf (history br) r b of None \<Rightarrow> Some n
                    | Some l \<Rightarrow> Some (mergeBackendHistory l n)))"
proof (cases "map_of new r")
  case None
  with assms(1) show ?thesis
    by (simp add: historyOf_def mergeHistory_def map_of_fold_mergeRule)
next
  case (Some nrh)
  then have "(r, nrh) \<in> set new" by (rule map_of_SomeD)
  with assms(2) have d: "distinct (map fst nrh)" by auto
  show ?thesis
  proof (cases "map_of (history br) r")
    case None
    with Some assms(1) show ?thesis
      by (simp add: historyOf_def mergeHistory_def map_of_fold_mergeRule split: option.splits)
  next
    case (Some rh)
    with \<open>map_of new r = Some nrh\<close> assms(1) d show ?thesis
      by (simp add: historyOf_def mergeHistory_def map_of_fold_mergeRule map_of_fold_mergeBackend
          split: option.splits)
  qed
qed

text \<open>On any two entries the merge chooses each slice on its own.\<close>

lemma mergeBackendHistory_slices:
  "mergeBackendHistory l n =
     \<lparr>Step1History = (if takesNew (Step1History l) (Step1History n)
                        then Step1History n else Step1History l),
      Step2History = (if takesNew (Step2History l) (Step2History n)
                        then Step2History n else Step2History l)\<rparr>"
  by (simp add: mergeBackendHistory_def Let_def)

subsection \<open>Entries stay in step\<close>

lemma list_all_AList_update:
  "P (k, v) \<Longrightarrow> list_all P al \<Longrightarrow> list_all P (AList.update k v al)"
  by (induction al) auto

lemma list_all_AList_delete:
  "list_all P al \<Longrightarrow> list_all P (AList.delete k al)"
  by (induction al) auto

lemma list_all_map_of:
  "list_all P al \<Longrightarrow> map_of al k = Some v \<Longrightarrow> P (k, v)"
  by (auto simp: list_all_iff dest: map_of_SomeD)

lemma inStep_empty: "inStep \<lparr>Step1History = [], Step2History = []\<rparr>"
  by (simp add: inStep_def)

lemma inStep_latest:
  assumes "inStep bh"
  shows "latest bh =
     (if length (Step2History bh) = 0 then None else Some (Timestamp (last (Step2History bh))))"
proof -
  from assms have m: "map Timestamp (Step1History bh) = map Timestamp (Step2History bh)"
    by (simp add: inStep_def)
  then have l: "length (Step1History bh) = length (Step2History bh)"
    by (rule map_eq_imp_length_eq)
  show ?thesis
  proof (cases "Step1History bh = []")
    case True
    with l show ?thesis by (simp add: latest_def)
  next
    case False
    with l have n: "Step2History bh \<noteq> []" by auto
    from False have "Timestamp (last (Step1History bh)) = last (map Timestamp (Step1History bh))"
      by (simp add: last_map)
    also have "\<dots> = Timestamp (last (Step2History bh))"
      unfolding m using n by (simp add: last_map)
    finally show ?thesis using False n by (simp add: latest_def)
  qed
qed

lemma inStep_append:
  "inStep bh \<Longrightarrow>
   inStep (bh\<lparr>Step1History := Step1History bh @ [\<lparr>Timestamp = t, Value = v\<rparr>],
              Step2History := Step2History bh @ [\<lparr>Timestamp = t, Value = w\<rparr>]\<rparr>)"
  by (simp add: inStep_def)

lemma inStep_purge:
  assumes "inStep bh"
  shows "inStep (bh\<lparr>Step1History := purgeHistory (Step1History bh) retention now,
                    Step2History := purgeHistory (Step2History bh) retention now\<rparr>)"
proof -
  have e: "expired retention now = (\<lambda>t. \<not> After (Add (UnixMilli t) retention) now) \<circ> Timestamp"
    by (auto simp: expired_def)
  have "map Timestamp (dropWhile (expired retention now) xs) =
      dropWhile (\<lambda>t. \<not> After (Add (UnixMilli t) retention) now) (map Timestamp xs)" for xs
    unfolding e by (simp add: dropWhile_map)
  with assms show ?thesis by (simp add: inStep_def purgeHistory_dropWhile)
qed

lemma inStepRule_getBackendHistory:
  "inStepRule rh \<Longrightarrow> inStep (getBackendHistory rh backend)"
  by (auto simp: getBackendHistory_def inStepRule_def inStep_empty
      dest: list_all_map_of split: option.splits)

lemma inStepHistory_getRuleHistory:
  "inStepHistory h \<Longrightarrow> inStepRule (getRuleHistory h ruleKey)"
  by (auto simp: getRuleHistory_def inStepHistory_def inStepRule_def
      dest: list_all_map_of split: option.splits)

lemma inStepHistory_update:
  "inStepRule rh \<Longrightarrow> inStepHistory h \<Longrightarrow> inStepHistory (AList.update k rh h)"
  by (simp add: inStepHistory_def list_all_AList_update)

lemma inStepRule_update:
  "inStep bh \<Longrightarrow> inStepRule rh \<Longrightarrow> inStepRule (AList.update k bh rh)"
  by (simp add: inStepRule_def list_all_AList_update)

lemma inStepRule_Nil: "inStepRule []"
  by (simp add: inStepRule_def)

lemma metric2HistoryRule_inStep:
  assumes "inStepHistory h"
  shows "inStepHistory (metric2HistoryRule mfs backend now kr h)"
proof -
  let ?h1 = "case map_of h (fst kr) of None \<Rightarrow> AList.update (fst kr) [] h | Some rh \<Rightarrow> h"
  have h1: "inStepHistory ?h1"
    using assms by (simp add: inStepHistory_update inStepRule_Nil split: option.splits)
  let ?rh = "getRuleHistory ?h1 (fst kr)"
  have rh: "inStepRule ?rh" using h1 by (rule inStepHistory_getRuleHistory)
  then have bh: "inStep (getBackendHistory ?rh backend)" by (rule inStepRule_getBackendHistory)
  show ?thesis
    using assms h1 rh inStep_append [OF bh]
    by (simp add: metric2HistoryRule_def Let_def inStepHistory_update inStepRule_update)
qed

lemma metric2History_inStep:
  "inStepHistory (history br) \<Longrightarrow> inStepHistory (history (metric2History mfs backend now br))"
  by (simp add: metric2History_def fold_invariant [where P = inStepHistory] metric2HistoryRule_inStep)

lemma purgeBackend_inStep:
  assumes "inStep (snd kb)" and "inStepRule rh"
  shows "inStepRule (purgeBackend rule now kb rh)"
  using assms(2) inStep_purge [OF assms(1), of "Retention rule" now]
  by (simp add: purgeBackend_def Let_def inStepRule_update)
    (simp add: inStepRule_def list_all_AList_delete)

lemma fold_purgeBackend_inStep:
  "inStepRule xs \<Longrightarrow> inStepRule rh \<Longrightarrow> inStepRule (fold (purgeBackend rule now) xs rh)"
proof (induction xs arbitrary: rh)
  case Nil
  then show ?case by simp
next
  case (Cons kb xs)
  from Cons.prems(1) have a: "inStep (snd kb)" and b: "inStepRule xs"
    by (simp_all add: inStepRule_def)
  from Cons.IH [OF b purgeBackend_inStep [OF a Cons.prems(2)]] show ?case by simp
qed

lemma purgeRule_inStep:
  assumes "inStepRule (snd kr)" and "inStepHistory h"
  shows "inStepHistory (purgeRule rules now kr h)"
  using assms
  by (simp add: purgeRule_def inStepHistory_update fold_purgeBackend_inStep split: option.splits)
    (simp add: inStepHistory_def list_all_AList_delete)

lemma fold_purgeRule_inStep:
  "inStepHistory xs \<Longrightarrow> inStepHistory h \<Longrightarrow> inStepHistory (fold (purgeRule rules now) xs h)"
proof (induction xs arbitrary: h)
  case Nil
  then show ?case by simp
next
  case (Cons kr xs)
  from Cons.prems(1) have a: "inStepRule (snd kr)" and b: "inStepHistory xs"
    by (simp_all add: inStepHistory_def)
  from Cons.IH [OF b purgeRule_inStep [OF a Cons.prems(2)]] show ?case by simp
qed

lemma purgeHistory_inStep:
  "inStepHistory (history br) \<Longrightarrow> inStepHistory (history (BackendReader_purgeHistory now br))"
  by (simp add: BackendReader_purgeHistory_def fold_purgeRule_inStep)

lemma mergeBackendHistory_inStep_eq:
  assumes "inStep l" and "inStep n"
  shows "mergeBackendHistory l n =
     (case latest l of
        None \<Rightarrow> n
      | Some t \<Rightarrow> (case latest n of None \<Rightarrow> l | Some u \<Rightarrow> if u > t then n else l))"
proof -
  note ll = inStep_latest [OF assms(1)] and ln = inStep_latest [OF assms(2)]
  define c where "c = (case latest l of None \<Rightarrow> True
       | Some t \<Rightarrow> (case latest n of None \<Rightarrow> False | Some u \<Rightarrow> u > t))"
  have 1: "takesNew (Step1History l) (Step1History n) = c"
    by (simp add: takesNew_def latest_def c_def)
  have 2: "takesNew (Step2History l) (Step2History n) = c"
    unfolding c_def ll ln by (simp add: takesNew_def)
  have 3: "l\<lparr>Step1History := Step1History n, Step2History := Step2History n\<rparr> = n"
    by (cases l; cases n) simp
  have "mergeBackendHistory l n = (if c then n else l)"
    using 3 by (simp add: mergeBackendHistory_def Let_def 1 2)
  then show ?thesis by (simp add: c_def split: option.splits)
qed

lemma mergeBackendHistory_inStep:
  "inStep l \<Longrightarrow> inStep n \<Longrightarrow> inStep (mergeBackendHistory l n)"
  by (simp add: mergeBackendHistory_inStep_eq split: option.splits)

lemma mergeBackend_inStep:
  assumes "inStep (snd kb)" and "inStepRule rh"
  shows "inStepRule (mergeBackend kb rh)"
proof (cases "map_of rh (fst kb)")
  case None
  with assms show ?thesis by (simp add: mergeBackend_def inStepRule_update)
next
  case (Some bh)
  with assms(2) have "inStep bh" by (auto simp: inStepRule_def dest: list_all_map_of)
  with Some assms show ?thesis
    by (simp add: mergeBackend_def inStepRule_update mergeBackendHistory_inStep)
qed

lemma fold_mergeBackend_inStep:
  "inStepRule xs \<Longrightarrow> inStepRule rh \<Longrightarrow> inStepRule (fold mergeBackend xs rh)"
proof (induction xs arbitrary: rh)
  case Nil
  then show ?case by simp
next
  case (Cons kb xs)
  from Cons.prems(1) have a: "inStep (snd kb)" and b: "inStepRule xs"
    by (simp_all add: inStepRule_def)
  from Cons.IH [OF b mergeBackend_inStep [OF a Cons.prems(2)]] show ?case by simp
qed

lemma mergeRule_inStep:
  assumes "inStepRule (snd kr)" and "inStepHistory h"
  shows "inStepHistory (mergeRule kr h)"
proof (cases "map_of h (fst kr)")
  case None
  with assms show ?thesis by (simp add: mergeRule_def inStepHistory_update)
next
  case (Some rh)
  with assms(2) have "inStepRule rh" by (auto simp: inStepHistory_def dest: list_all_map_of)
  with Some assms show ?thesis
    by (simp add: mergeRule_def inStepHistory_update fold_mergeBackend_inStep)
qed

lemma mergeHistory_inStep:
  "inStepHistory new \<Longrightarrow> inStepHistory (history br) \<Longrightarrow>
   inStepHistory (history (mergeHistory new br))"
proof -
  have "inStepHistory xs \<Longrightarrow> inStepHistory h \<Longrightarrow> inStepHistory (fold mergeRule xs h)" for xs h
  proof (induction xs arbitrary: h)
    case Nil
    then show ?case by simp
  next
    case (Cons kr xs)
    from Cons.prems(1) have a: "inStepRule (snd kr)" and b: "inStepHistory xs"
      by (simp_all add: inStepHistory_def)
    from Cons.IH [OF b mergeRule_inStep [OF a Cons.prems(2)]] show ?case by simp
  qed
  then show "inStepHistory new \<Longrightarrow> inStepHistory (history br) \<Longrightarrow>
      inStepHistory (history (mergeHistory new br))"
    by (simp add: mergeHistory_def)
qed

lemma history_mergeQueryResult [simp]:
  "history (fst (mergeQueryResult vs backend now br)) = history br"
  "marshalledHistory (fst (mergeQueryResult vs backend now br)) = marshalledHistory br"
  by (simp_all add: mergeQueryResult_def Let_def)

lemma history_mergeBackendResults [simp]:
  "history (fst (mergeBackendResults backends now br)) = history br"
  by (induction backends arbitrary: br) (simp_all add: Let_def split: option.splits)

lemma marshalled_mergeBackendResults [simp]:
  "marshalledHistory (fst (mergeBackendResults backends now br)) = marshalledHistory br"
  by (induction backends arbitrary: br) (simp_all add: Let_def split: option.splits)

lemma readFromOwner_inStep:
  "inStepResp resp \<Longrightarrow> inStepHistory (history br) \<Longrightarrow>
   inStepHistory (history (fst (readFromOwner resp now br)))"
  by (cases resp) (simp_all add: readFromOwner_def Let_def inStepResp_def mergeHistory_inStep)

lemma readFromOwners_inStep:
  "list_all (\<lambda>ow. inStepResp (fst ow)) owners \<Longrightarrow> inStepHistory (history br) \<Longrightarrow>
   inStepHistory (history (fst (readFromOwners owners br)))"
proof (induction owners arbitrary: br)
  case Nil
  then show ?case by simp
next
  case (Cons ow owners)
  obtain resp now where ow: "ow = (resp, now)" by (cases ow)
  from Cons.prems ow have a: "inStepResp resp" and b: "list_all (\<lambda>ow. inStepResp (fst ow)) owners"
    by simp_all
  note 1 = readFromOwner_inStep [OF a Cons.prems(2), of now]
  from Cons.IH [OF b 1] 1 ow show ?case by (simp add: Let_def split: sum.splits)
qed

lemma scrapeBackend_inStep:
  "inStepHistory (history br) \<Longrightarrow> inStepHistory (history (scrapeBackend sc br))"
  by (cases "families sc") (simp_all add: scrapeBackend_def Let_def metric2History_inStep)

lemma history_marshalHistory [simp]:
  "history (marshalHistory backends br) = history br"
  by (simp add: marshalHistory_def)

lemma readFromBackends_inStep:
  "inStepHistory (history br) \<Longrightarrow> inStepHistory (history (readFromBackends scrapes br))"
  by (simp add: readFromBackends_def fold_invariant [where P = "\<lambda>b. inStepHistory (history b)"]
      scrapeBackend_inStep)

lemma ReadMetrics_inStep:
  assumes "list_all (\<lambda>ow. inStepResp (fst ow)) owners" and "inStepHistory (history br)"
  shows "inStepHistory (history (fst (ReadMetrics owners topology now br)))"
  using readFromOwners_inStep [OF assms]
  by (auto simp: ReadMetrics_def Let_def purgeHistory_inStep readFromBackends_inStep
      split: option.splits sum.splits)

lemma marshalHistory_inStep:
  "inStepHistory (history br) \<Longrightarrow>
   (case marshalledHistory (marshalHistory backends br) of
      None \<Rightarrow> True | Some h \<Rightarrow> inStepHistory h)"
  by (auto simp: marshalHistory_def inStepHistory_def inStepRule_def list_all_iff)

lemma NewBackendReader_inStep: "inStepHistory (history NewBackendReader)"
  by (simp add: NewBackendReader_def inStepHistory_def)

text \<open>
  Claim C8. The histories that readers hold and send are in step. Merging the history
  fetched from an owner into the local one keeps an entry that is present on one side
  only unchanged; for a rule and a backend present on both sides it keeps the entry of
  the side whose latest sample has the larger timestamp, the local entry on ties (and
  the fetched entry when the local one has no sample). The merged history is in step
  again, and it is the history that \<open>readFromOwner\<close> leaves.
\<close>

theorem mergeHistory_keeps_newer_entry:
  assumes "distinct (map fst new)"
    and "\<forall>kr \<in> set new. distinct (map fst (snd kr))"
    and "inStepHistory new" and "inStepHistory (history br)"
  shows "historyOf (history (mergeHistory new br)) r b =
     (case historyOf new r b of
        None \<Rightarrow> historyOf (history br) r b
      | Some n \<Rightarrow>
          (case historyOf (history br) r b of
             None \<Rightarrow> Some n
           | Some l \<Rightarrow>
               Some (case latest l of
                       None \<Rightarrow> n
                     | Some t \<Rightarrow>
                         (case latest n of None \<Rightarrow> l | Some u \<Rightarrow> if u > t then n else l)))) \<and>
    inStepHistory (history (mergeHistory new br)) \<and>
    history (fst (readFromOwner (RespHistory new) now br)) = history (mergeHistory new br)"
proof -
  have i: "inStep e" if "historyOf h r b = Some e" "inStepHistory h" for h e
  proof -
    from that(1) obtain rh where rh: "map_of h r = Some rh" and e: "map_of rh b = Some e"
      by (auto simp: historyOf_def split: option.splits)
    from that(2) rh have "inStepRule rh" by (auto simp: inStepHistory_def dest: list_all_map_of)
    with e show ?thesis by (auto simp: inStepRule_def dest: list_all_map_of)
  qed
  have 1: "historyOf (history (mergeHistory new br)) r b =
     (case historyOf new r b of
        None \<Rightarrow> historyOf (history br) r b
      | Some n \<Rightarrow>
          (case historyOf (history br) r b of
             None \<Rightarrow> Some n
           | Some l \<Rightarrow>
               Some (case latest l of
                       None \<Rightarrow> n
                     | Some t \<Rightarrow>
                         (case latest n of None \<Rightarrow> l | Some u \<Rightarrow> if u > t then n else l))))"
  proof (cases "historyOf new r b")
    case None
    then show ?thesis by (simp add: historyOf_mergeHistory [OF assms(1,2)])
  next
    case n: (Some n)
    show ?thesis
    proof (cases "historyOf (history br) r b")
      case None
      with n show ?thesis by (simp add: historyOf_mergeHistory [OF assms(1,2)])
    next
      case (Some l)
      from i [OF n assms(3)] i [OF Some assms(4)]
      have "mergeBackendHistory l n =
          (case latest l of None \<Rightarrow> n
           | Some t \<Rightarrow> (case latest n of None \<Rightarrow> l | Some u \<Rightarrow> if u > t then n else l))"
        by (simp add: mergeBackendHistory_inStep_eq)
      with n Some show ?thesis by (simp add: historyOf_mergeHistory [OF assms(1,2)])
    qed
  qed
  have 2: "inStepHistory (history (mergeHistory new br))"
    using assms(3,4) by (rule mergeHistory_inStep)
  have 3: "history (fst (readFromOwner (RespHistory new) now br)) = history (mergeHistory new br)"
    by (simp add: readFromOwner_def Let_def)
  from 1 2 3 show ?thesis by blast
qed

theorem mergeHistory_keeps_newer_entry_witness:
  "distinct (map fst fetchedH) \<and> list_all (\<lambda>kr. distinct (map fst (snd kr))) fetchedH \<and>
   inStepHistory fetchedH \<and> inStepHistory (history (ownerR\<lparr>history := localH\<rparr>)) \<and>
   historyOf (history (mergeHistory fetchedH (ownerR\<lparr>history := localH\<rparr>))) ''R'' ''b1:10080'' =
     Some (entryAt 20 4) \<and>
   historyOf (history (mergeHistory fetchedH (ownerR\<lparr>history := localH\<rparr>))) ''R'' ''b2:10080'' =
     Some (entryAt 20 2) \<and>
   historyOf (history (mergeHistory fetchedH (ownerR\<lparr>history := localH\<rparr>))) ''R'' ''b3:10080'' =
     Some (entryAt 15 3) \<and>
   historyOf (history (mergeHistory fetchedH (ownerR\<lparr>history := localH\<rparr>))) ''R'' ''b4:10080'' =
     Some (entryAt 5 6)"
proof -
  let ?br = "ownerR\<lparr>history := localH\<rparr>"
  have d: "distinct (map fst fetchedH)" by (simp add: fetchedH_def)
  have e: "\<forall>kr \<in> set fetchedH. distinct (map fst (snd kr))" by (simp add: fetchedH_def)
  have e': "list_all (\<lambda>kr. distinct (map fst (snd kr))) fetchedH" by (simp add: fetchedH_def)
  have f: "inStepHistory fetchedH"
    by (simp add: fetchedH_def inStepHistory_def inStepRule_def inStep_def entryAt_def)
  have g: "inStepHistory (history ?br)"
    by (simp add: localH_def inStepHistory_def inStepRule_def inStep_def entryAt_def)
  have n: "historyOf fetchedH ''R'' ''b1:10080'' = Some (entryAt 20 4)"
    "historyOf fetchedH ''R'' ''b2:10080'' = Some (entryAt 20 5)"
    "historyOf fetchedH ''R'' ''b3:10080'' = None"
    "historyOf fetchedH ''R'' ''b4:10080'' = Some (entryAt 5 6)"
    by (simp_all add: historyOf_def fetchedH_def)
  have l: "historyOf (history ?br) ''R'' ''b1:10080'' = Some (entryAt 10 1)"
    "historyOf (history ?br) ''R'' ''b2:10080'' = Some (entryAt 20 2)"
    "historyOf (history ?br) ''R'' ''b3:10080'' = Some (entryAt 15 3)"
    "historyOf (history ?br) ''R'' ''b4:10080'' = None"
    by (simp_all add: historyOf_def localH_def)
  have t: "latest (entryAt ms v) = Some ms" for ms v
    by (simp add: latest_def entryAt_def)
  note m = mergeHistory_keeps_newer_entry [OF d e f g, where now = 0, THEN conjunct1]
  have 1: "historyOf (history (mergeHistory fetchedH ?br)) ''R'' ''b1:10080'' = Some (entryAt 20 4)"
    unfolding m n l by (simp add: t)
  have 2: "historyOf (history (mergeHistory fetchedH ?br)) ''R'' ''b2:10080'' = Some (entryAt 20 2)"
    unfolding m n l by (simp add: t)
  have 3: "historyOf (history (mergeHistory fetchedH ?br)) ''R'' ''b3:10080'' = Some (entryAt 15 3)"
    unfolding m n l by simp
  have 4: "historyOf (history (mergeHistory fetchedH ?br)) ''R'' ''b4:10080'' = Some (entryAt 5 6)"
    unfolding m n l by simp
  from d e' f g 1 2 3 4 show ?thesis by blast
qed

section \<open>Properties of mergeQueryResult\<close>


lemma indexOfInstance_first:
  "k < length ms \<Longrightarrow> instanceLabel (ms ! k) = backend \<Longrightarrow>
   (\<forall>j<k. instanceLabel (ms ! j) \<noteq> backend) \<Longrightarrow>
   indexOfInstance ms backend i = int (i + k)"
proof (induction ms arbitrary: k i)
  case Nil
  then show ?case by simp
next
  case (Cons m ms)
  show ?case
  proof (cases k)
    case 0
    with Cons.prems show ?thesis by simp
  next
    case (Suc k')
    with Cons.prems have m: "instanceLabel m \<noteq> backend" by auto
    from Cons.prems Suc have "\<forall>j<k'. instanceLabel (ms ! j) \<noteq> backend" by auto
    with Cons.IH [of k' "Suc i"] Cons.prems Suc m show ?thesis by simp
  qed
qed







lemma valueFor_isSeries: "valueFor backend v \<Longrightarrow> isSeries v"
  by (auto simp: valueFor_def split: model_Value.splits list.splits)

lemma mergeValue_isSeries:
  "mergeValue cur v backend = Inr m \<Longrightarrow> isSeries m = isSeries cur"
  by (auto simp: mergeValue_def Let_def split: model_Value.splits list.splits)





lemma list_all_update:
  "list_all P al \<Longrightarrow> P (k, v) \<Longrightarrow> list_all P (AList.update k v al)"
  by (induction al) auto

lemma seriesOnly_lookup:
  "seriesOnly qrs \<Longrightarrow>
   qrValue (case map_of qrs k of None \<Rightarrow> zeroQueryResult | Some r \<Rightarrow> r) = Some v \<Longrightarrow> isSeries v"
proof -
  assume s: "seriesOnly qrs"
    and q: "qrValue (case map_of qrs k of None \<Rightarrow> zeroQueryResult | Some r \<Rightarrow> r) = Some v"
  from q obtain r where r: "map_of qrs k = Some r" "qrValue r = Some v"
    by (auto simp: zeroQueryResult_def split: option.splits)
  then have "(k, r) \<in> set qrs" by (auto dest: map_of_SomeD)
  with s r show ?thesis by (auto simp: seriesOnly_def list_all_iff)
qed

lemma seriesOnly_update:
  "seriesOnly qrs \<Longrightarrow> qrValue r = Some v \<Longrightarrow> isSeries v \<Longrightarrow> seriesOnly (AList.update k r qrs)"
  unfolding seriesOnly_def by (rule list_all_update) auto

lemma loop_seriesOnly:
  "list_all (\<lambda>kv. valueFor backend (snd kv)) vs \<Longrightarrow> seriesOnly qrs \<Longrightarrow>
   seriesOnly (fst (mergeQueryResult_loop vs backend now qrs))"
proof (induction vs arbitrary: qrs)
  case Nil
  then show ?case by simp
next
  case (Cons kv vs)
  obtain rk v where kv: "kv = (rk, v)" by (cases kv)
  from Cons.prems kv have v: "valueFor backend v"
    and vs: "list_all (\<lambda>kv. valueFor backend (snd kv)) vs" by auto
  let ?stored = "case map_of qrs rk of None \<Rightarrow> zeroQueryResult | Some r \<Rightarrow> r"
  let ?result = "?stored\<lparr>UpdateTime := now\<rparr>"
  show ?case
  proof (cases "qrValue ?stored")
    case None
    let ?q = "AList.update rk (?result\<lparr>qrValue := Some v\<rparr>) qrs"
    have "seriesOnly ?q"
      using Cons.prems(2) valueFor_isSeries [OF v] by (intro seriesOnly_update [where v = v]) auto
    from Cons.IH [OF vs this] show ?thesis using None kv by (simp add: Let_def)
  next
    case (Some cur)
    show ?thesis
    proof (cases "mergeValue cur v backend")
      case (Inl p)
      with Some kv Cons.prems(2) show ?thesis by (simp add: Let_def)
    next
      case (Inr m)
      let ?q = "AList.update rk (?result\<lparr>qrValue := Some m\<rparr>) qrs"
      from seriesOnly_lookup [OF Cons.prems(2) Some] mergeValue_isSeries [OF Inr]
      have "isSeries m" by simp
      then have "seriesOnly ?q"
        using Cons.prems(2) by (intro seriesOnly_update [where v = m]) auto
      from Cons.IH [OF vs this] show ?thesis using Some Inr kv by (simp add: Let_def)
    qed
  qed
qed



lemma history2ValueRule_valueFor:
  "list_all (\<lambda>kv. valueFor backend (snd kv)) acc \<Longrightarrow>
   list_all (\<lambda>kv. valueFor backend (snd kv)) (history2ValueRule h backend kr acc)"
  by (auto simp: history2ValueRule_def Let_def valueFor_def instanceLabel_def
      intro!: list_all_update split: ValueType.splits)

lemma fold_history2ValueRule_valueFor:
  "list_all (\<lambda>kv. valueFor backend (snd kv)) acc \<Longrightarrow>
   list_all (\<lambda>kv. valueFor backend (snd kv)) (fold (history2ValueRule h backend) rules acc)"
  by (induction rules arbitrary: acc) (auto intro: history2ValueRule_valueFor)

lemma history2Value_valueFor:
  "list_all (\<lambda>kv. valueFor backend (snd kv)) (history2Value backend br)"
  unfolding history2Value_def by (rule fold_history2ValueRule_valueFor) simp


lemma queryResults_metric2History [simp]:
  "queryResults (metric2History mf backend now br) = queryResults br"
  by (simp add: metric2History_def)

lemma queryResults_mergeHistory [simp]:
  "queryResults (mergeHistory new br) = queryResults br"
  by (simp add: mergeHistory_def)

lemma queryResults_marshalHistory [simp]:
  "queryResults (marshalHistory backends br) = queryResults br"
  by (simp add: marshalHistory_def)

lemma queryResults_purgeHistory [simp]:
  "queryResults (BackendReader_purgeHistory now br) = queryResults br"
  by (simp add: BackendReader_purgeHistory_def)











lemma mergeQueryResult_seriesOnly:
  "list_all (\<lambda>kv. valueFor backend (snd kv)) vs \<Longrightarrow> seriesOnly (queryResults br) \<Longrightarrow>
   seriesOnly (queryResults (fst (mergeQueryResult vs backend now br)))"
  by (simp add: mergeQueryResult_def Let_def loop_seriesOnly)

lemma scrapeBackend_seriesOnly:
  "seriesOnly (queryResults br) \<Longrightarrow> seriesOnly (queryResults (scrapeBackend sc br))"
  by (cases "families sc")
    (simp_all add: scrapeBackend_def Let_def mergeQueryResult_seriesOnly history2Value_valueFor)

lemma readFromBackends_seriesOnly:
  "seriesOnly (queryResults br) \<Longrightarrow> seriesOnly (queryResults (readFromBackends scrapes br))"
proof -
  assume "seriesOnly (queryResults br)"
  then have "seriesOnly (queryResults (fold scrapeBackend scrapes br))"
    by (rule fold_invariant [where P = "\<lambda>b. seriesOnly (queryResults b)", rotated])
      (rule scrapeBackend_seriesOnly)
  then show ?thesis using \<open>seriesOnly (queryResults br)\<close> by (simp add: readFromBackends_def)
qed

lemma mergeBackendResults_seriesOnly:
  "seriesOnly (queryResults br) \<Longrightarrow>
   seriesOnly (queryResults (fst (mergeBackendResults backends now br)))"
proof (induction backends arbitrary: br)
  case Nil
  then show ?case by simp
next
  case (Cons b backends)
  let ?r = "mergeQueryResult (history2Value b br) b now br"
  have 1: "seriesOnly (queryResults (fst ?r))"
    using Cons.prems by (intro mergeQueryResult_seriesOnly history2Value_valueFor)
  show ?case
  proof (cases "snd ?r")
    case None
    with Cons.IH [OF 1] show ?thesis by (simp add: Let_def)
  next
    case (Some p)
    with 1 show ?thesis by (simp add: Let_def)
  qed
qed

lemma readFromOwner_seriesOnly:
  "seriesOnly (queryResults br) \<Longrightarrow> seriesOnly (queryResults (fst (readFromOwner resp now br)))"
  by (cases resp) (simp_all add: readFromOwner_def Let_def mergeBackendResults_seriesOnly)

lemma readFromOwners_seriesOnly:
  "seriesOnly (queryResults br) \<Longrightarrow> seriesOnly (queryResults (fst (readFromOwners owners br)))"
proof (induction owners arbitrary: br)
  case Nil
  then show ?case by simp
next
  case (Cons ow owners)
  obtain resp now where ow: "ow = (resp, now)" by (cases ow)
  from Cons.IH [OF readFromOwner_seriesOnly [OF Cons.prems, of resp now]] ow
    readFromOwner_seriesOnly [OF Cons.prems, of resp now]
  show ?case by (simp add: Let_def split: sum.splits)
qed

lemma ReadMetrics_seriesOnly:
  "seriesOnly (queryResults br) \<Longrightarrow>
   seriesOnly (queryResults (fst (ReadMetrics owners topology now br)))"
  by (auto simp: ReadMetrics_def Let_def readFromOwners_seriesOnly readFromBackends_seriesOnly
      split: option.splits sum.splits)

lemma NewBackendReader_seriesOnly: "seriesOnly (queryResults NewBackendReader)"
  by (simp add: NewBackendReader_def seriesOnly_def)






section \<open>Properties of the steps of a replay\<close>

lemma Stop_keeps:
  "conns (Stop e r) = conns r" "executed (Stop e r) = executed r"
  "created (Stop e r) = created r" "creator (Stop e r) = creator r"
  "connCount (Stop e r) = connCount r" "dispatched (Stop e r) = dispatched r"
  "replayedCmds (Stop e r) = replayedCmds r" "filteredCmds (Stop e r) = filteredCmds r"
  "metaCmds (Stop e r) = metaCmds r" "cfg (Stop e r) = cfg r"
  "pacerRunning (Stop e r) = pacerRunning r" "drainRunning (Stop e r) = drainRunning r"
  "captureStartTs (Stop e r) = captureStartTs r" "replayStartTs (Stop e r) = replayStartTs r"
  "clock (Stop e r) = clock r"
  by (simp_all add: Stop_def Let_def split: option.splits)

lemma Progress_keeps:
  "conns (snd (Progress r)) = conns r" "executed (snd (Progress r)) = executed r"
  "created (snd (Progress r)) = created r" "creator (snd (Progress r)) = creator r"
  "connCount (snd (Progress r)) = connCount r" "dispatched (snd (Progress r)) = dispatched r"
  "replayedCmds (snd (Progress r)) = replayedCmds r" "filteredCmds (snd (Progress r)) = filteredCmds r"
  "metaCmds (snd (Progress r)) = metaCmds r" "cfg (snd (Progress r)) = cfg r"
  by (simp_all add: Progress_def Let_def)

lemma pacing_keeps:
  "conns (pacing env command r) = conns r" "executed (pacing env command r) = executed r"
  "created (pacing env command r) = created r" "creator (pacing env command r) = creator r"
  "connCount (pacing env command r) = connCount r" "dispatched (pacing env command r) = dispatched r"
  "replayedCmds (pacing env command r) = replayedCmds r"
  "filteredCmds (pacing env command r) = filteredCmds r"
  "metaCmds (pacing env command r) = metaCmds r" "cfg (pacing env command r) = cfg r"
  "pacerRunning (pacing env command r) = pacerRunning r"
  "drainRunning (pacing env command r) = drainRunning r"
  by (simp_all add: pacing_def Let_def Stop_keeps split: option.splits prod.splits)

text \<open>An iteration of the pacer either leaves the connections alone or dispatches.\<close>

lemma readCommands_iter_cases:
  "(conns (readCommands_iter env r) = conns r \<and> executed (readCommands_iter env r) = executed r \<and>
    created (readCommands_iter env r) = created r \<and> creator (readCommands_iter env r) = creator r \<and>
    connCount (readCommands_iter env r) = connCount r \<and>
    dispatched (readCommands_iter env r) = dispatched r \<and>
    replayedCmds (readCommands_iter env r) = replayedCmds r) \<or>
   (\<exists>command. item env = Decoded command \<and> Type command \<noteq> ComChangeUser \<and>
      readCommands_iter env r = dispatch command (pacing env command r))"
proof (cases "pacerRunning r \<and> \<not> ctxDone r")
  case False
  then show ?thesis by (auto simp: readCommands_iter_def)
next
  case True
  show ?thesis
  proof (cases "item env")
    case DecodeEOF
    with True show ?thesis by (simp add: readCommands_iter_def Stop_keeps)
  next
    case (DecodeFailed e)
    with True show ?thesis by (simp add: readCommands_iter_def Stop_keeps)
  next
    case (Decoded command)
    with True show ?thesis
      by (simp add: readCommands_iter_def Let_def pacing_keeps)
  qed
qed

section \<open>Properties of the connection map\<close>

lemma executeCmd_tombstone_same:
  "map_of (conns r) (ConnID command) = Some conn \<Longrightarrow> \<not> isLive conn \<Longrightarrow>
   executeCmd command r = r"
  by (simp add: executeCmd_def)

lemma executeCmd_other:
  assumes "map_of (conns r) c = Some NilConn" and "ConnID command \<noteq> c"
  shows "map_of (conns (executeCmd command r)) c = Some NilConn"
    and "filter (\<lambda>x. ConnID x = c) (executed (executeCmd command r)) =
         filter (\<lambda>x. ConnID x = c) (executed r)"
    and "filter (\<lambda>x. x = c) (created (executeCmd command r)) = filter (\<lambda>x. x = c) (created r)"
  using assms
  by (auto simp: executeCmd_def Let_def update_conv' split: option.splits)

lemma executeCmd_keeps_tombstone:
  assumes "map_of (conns r) c = Some NilConn"
  shows "map_of (conns (executeCmd command r)) c = Some NilConn \<and>
     filter (\<lambda>x. ConnID x = c) (executed (executeCmd command r)) =
       filter (\<lambda>x. ConnID x = c) (executed r) \<and>
     filter (\<lambda>x. x = c) (created (executeCmd command r)) = filter (\<lambda>x. x = c) (created r)"
proof (cases "ConnID command = c")
  case True
  with assms have "executeCmd command r = r"
    by (intro executeCmd_tombstone_same [where conn = NilConn]) auto
  with assms show ?thesis by simp
next
  case False
  with executeCmd_other [OF assms] show ?thesis by blast
qed

lemma closeConn_keeps_tombstone:
  assumes "map_of (conns r) c = Some NilConn"
  shows "map_of (conns (closeConn c' r)) c = Some NilConn \<and>
     executed (closeConn c' r) = executed r \<and> created (closeConn c' r) = created r"
  using assms by (auto simp: closeConn_def update_conv' split: option.splits)

lemma step_keeps_tombstone:
  assumes "map_of (conns r) c = Some NilConn"
  shows "map_of (conns (step ev r)) c = Some NilConn \<and>
     filter (\<lambda>x. ConnID x = c) (executed (step ev r)) = filter (\<lambda>x. ConnID x = c) (executed r) \<and>
     filter (\<lambda>x. x = c) (created (step ev r)) = filter (\<lambda>x. x = c) (created r)"
proof (cases ev)
  case (Read env)
  from readCommands_iter_cases [of env r] show ?thesis
  proof
    assume "conns (readCommands_iter env r) = conns r \<and>
      executed (readCommands_iter env r) = executed r \<and>
      created (readCommands_iter env r) = created r \<and>
      creator (readCommands_iter env r) = creator r \<and>
      connCount (readCommands_iter env r) = connCount r \<and>
      dispatched (readCommands_iter env r) = dispatched r \<and>
      replayedCmds (readCommands_iter env r) = replayedCmds r"
    with assms Read show ?thesis by simp
  next
    assume "\<exists>command. item env = Decoded command \<and> Type command \<noteq> ComChangeUser \<and>
      readCommands_iter env r = dispatch command (pacing env command r)"
    then obtain command where
      d: "readCommands_iter env r = dispatch command (pacing env command r)" by blast
    let ?r = "(pacing env command r)\<lparr>replayedCmds := replayedCmds (pacing env command r) + 1,
        dispatched := dispatched (pacing env command r) @ [(command, clock (pacing env command r))]\<rparr>"
    have "map_of (conns ?r) c = Some NilConn" using assms by (simp add: pacing_keeps)
    from executeCmd_keeps_tombstone [OF this, of command] d Read show ?thesis
      by (simp add: dispatch_def pacing_keeps)
  qed
next
  case (Drain received)
  with assms closeConn_keeps_tombstone [OF assms] show ?thesis
    by (auto simp: readCloseCh_iter_def split: option.splits)
next
  case (CallStop e)
  with assms show ?thesis by (simp add: Stop_keeps)
next
  case CallProgress
  with assms show ?thesis by (simp add: Progress_keeps)
next
  case (Wait d)
  with assms show ?thesis by simp
qed

lemma run_keeps_tombstone:
  assumes "map_of (conns r) c = Some NilConn"
  shows "map_of (conns (run evs r)) c = Some NilConn \<and>
     filter (\<lambda>x. ConnID x = c) (executed (run evs r)) = filter (\<lambda>x. ConnID x = c) (executed r) \<and>
     filter (\<lambda>x. x = c) (created (run evs r)) = filter (\<lambda>x. x = c) (created r)"
  using assms
proof (induction evs arbitrary: r)
  case Nil
  then show ?case by (simp add: run_def)
next
  case (Cons ev evs)
  from step_keeps_tombstone [OF Cons.prems, of ev]
  have s: "map_of (conns (step ev r)) c = Some NilConn"
    and e: "filter (\<lambda>x. ConnID x = c) (executed (step ev r)) = filter (\<lambda>x. ConnID x = c) (executed r)"
    and k: "filter (\<lambda>x. x = c) (created (step ev r)) = filter (\<lambda>x. x = c) (created r)"
    by blast+
  from Cons.IH [OF s] e k show ?case by (simp add: run_def)
qed

text \<open>
  Claim C6. When the close-drain task receives the id of a connection that has a worker,
  the entry of the map becomes the nil tombstone. From then on, whatever the pacer, the
  close-drain task and the callers of \<open>Stop\<close> and \<open>Progress\<close> do, the entry stays the
  tombstone, no command of that connection is handed to a worker, no connection is
  created for that id, and \<open>executeCmd\<close> with a command of that id leaves the replay as
  it is.
\<close>

theorem tombstone_rejects_later_commands:
  assumes "map_of (conns r) c = Some (LiveConn u p)" and "drainRunning r" and "connCount r > 0"
  shows "map_of (conns (step (Drain (Some c)) r)) c = Some NilConn \<and>
     connCount (step (Drain (Some c)) r) = connCount r - 1 \<and>
     map_of (conns (run evs (step (Drain (Some c)) r))) c = Some NilConn \<and>
     filter (\<lambda>x. ConnID x = c) (executed (run evs (step (Drain (Some c)) r))) =
       filter (\<lambda>x. ConnID x = c) (executed r) \<and>
     filter (\<lambda>x. x = c) (created (run evs (step (Drain (Some c)) r))) =
       filter (\<lambda>x. x = c) (created r) \<and>
     (ConnID command = c \<longrightarrow>
        executeCmd command (run evs (step (Drain (Some c)) r)) = run evs (step (Drain (Some c)) r))"
proof -
  let ?r = "step (Drain (Some c)) r"
  from assms have cl: "?r = closeConn c r" by (simp add: readCloseCh_iter_def)
  with assms(1) have t: "map_of (conns ?r) c = Some NilConn"
    and n: "connCount ?r = connCount r - 1"
    and e: "executed ?r = executed r" and k: "created ?r = created r"
    by (simp_all add: closeConn_def update_conv')
  from run_keeps_tombstone [OF t, of evs] e k
  have 1: "map_of (conns (run evs ?r)) c = Some NilConn"
    and 2: "filter (\<lambda>x. ConnID x = c) (executed (run evs ?r)) = filter (\<lambda>x. ConnID x = c) (executed r)"
    and 3: "filter (\<lambda>x. x = c) (created (run evs ?r)) = filter (\<lambda>x. x = c) (created r)"
    by simp_all
  have 4: "executeCmd command (run evs ?r) = run evs ?r" if "ConnID command = c"
    using 1 that by (intro executeCmd_tombstone_same [where conn = NilConn]) auto
  from t n 1 2 3 4 show ?thesis by blast
qed

theorem tombstone_rejects_later_commands_witness:
  "map_of (conns (run [readAtOnce (Decoded (query 7 captureStart))] (started (Finite 1) 2))) 7
     = Some (LiveConn ''u1'' ''p1'') \<and>
   drainRunning (run [readAtOnce (Decoded (query 7 captureStart))] (started (Finite 1) 2)) \<and>
   connCount (run [readAtOnce (Decoded (query 7 captureStart))] (started (Finite 1) 2)) > 0 \<and>
   map_of (conns (run [readAtOnce (Decoded (query 7 (captureStart + 5 * Millisecond)))]
      (step (Drain (Some 7))
         (run [readAtOnce (Decoded (query 7 captureStart))] (started (Finite 1) 2))))) 7
     = Some NilConn \<and>
   filter (\<lambda>x. ConnID x = 7)
     (executed (run [readAtOnce (Decoded (query 7 (captureStart + 5 * Millisecond)))]
        (step (Drain (Some 7))
           (run [readAtOnce (Decoded (query 7 captureStart))] (started (Finite 1) 2)))))
     = [query 7 captureStart] \<and>
   filter (\<lambda>x. x = 7)
     (created (run [readAtOnce (Decoded (query 7 (captureStart + 5 * Millisecond)))]
        (step (Drain (Some 7))
           (run [readAtOnce (Decoded (query 7 captureStart))] (started (Finite 1) 2)))))
     = [7]"
proof -
  let ?r = "run [readAtOnce (Decoded (query 7 captureStart))] (started (Finite 1) 2)"
  let ?evs = "[readAtOnce (Decoded (query 7 (captureStart + 5 * Millisecond)))]"
  have a: "map_of (conns ?r) 7 = Some (LiveConn ''u1'' ''p1'')" by code_simp
  have b: "drainRunning ?r" by code_simp
  have c: "connCount ?r > 0" by code_simp
  have e: "filter (\<lambda>x. ConnID x = 7) (executed ?r) = [query 7 captureStart]" by code_simp
  have k: "filter (\<lambda>x. x = 7) (created ?r) = [7]" by code_simp
  from tombstone_rejects_later_commands [OF a b c, of ?evs] a b c e k
  show ?thesis by simp
qed

section \<open>Properties of Validate and Start\<close>

lemma Validate_error_iff:
  assumes "Speed c \<noteq> NaN"
  shows "(\<exists>e. Validate osStat c = Inl e) \<longleftrightarrow>
    (Input c = [] \<or> osStat (Input c) \<noteq> StatInfo True \<or> Username c = [] \<or>
     (\<not> f64_eq (Speed c) (Finite 0) \<and>
      (f64_lt (Speed c) (Finite (1 / 10)) \<or> f64_lt (Finite 10) (Speed c))))"
  by (cases "osStat (Input c)")
    (auto simp: Validate_def minSpeed_def maxSpeed_def f64_gt_def)

lemma Validate_zero_speed:
  assumes "Input c \<noteq> []" and "osStat (Input c) = StatInfo True" and "Username c \<noteq> []"
    and "Speed c = Finite 0"
  shows "Validate osStat c = Inr (c\<lparr>Speed := Finite 1\<rparr>)"
  using assms by (simp add: Validate_def)

lemma Start_validation_error:
  "Validate osStat c = Inl e \<Longrightarrow> Start c osStat cmdsInMeta reportErr r = (Some e, r)"
  by (simp add: Start_def)

text \<open>A speed that \<open>Validate\<close> lets through lies between 0.1 and 10, or it is not a number.\<close>

lemma Validate_accepted_speed:
  assumes "Validate osStat c = Inr c'"
  shows "Speed c' = NaN \<or> (\<exists>q. Speed c' = Finite q \<and> 1 / 10 \<le> q \<and> q \<le> 10)"
  using assms
  by (cases "osStat (Input c)"; cases "Speed c")
    (auto simp: Validate_def minSpeed_def maxSpeed_def f64_gt_def split: if_splits)

text \<open>
  Claim C3. The code accepts a speed that is not a number: each of the three
  comparisons of \<open>Validate\<close> is false for NaN, so no error is returned, \<open>Start\<close> starts
  the pacer and the close-drain task, and the replay runs with the speed NaN.
\<close>

theorem Validate_accepts_NaN_speed:
  "Validate tmpOnly (configWith NaN) = Inr (configWith NaN) \<and>
   fst (Start (configWith NaN) tmpOnly 2 None (NewReplay replayStart)) = None \<and>
   pacerRunning (snd (Start (configWith NaN) tmpOnly 2 None (NewReplay replayStart))) \<and>
   drainRunning (snd (Start (configWith NaN) tmpOnly 2 None (NewReplay replayStart))) \<and>
   Speed (cfg (snd (Start (configWith NaN) tmpOnly 2 None (NewReplay replayStart)))) = NaN"
proof -
  have v: "Validate tmpOnly (configWith NaN) = Inr (configWith NaN)"
    by (simp add: Validate_def configWith_def tmpOnly_def minSpeed_def maxSpeed_def f64_gt_def)
  then show ?thesis
    by (simp add: Start_def Let_def) (simp add: configWith_def)
qed

section \<open>Properties of the pacer loop\<close>

lemma executeCmd_executed:
  "executed (executeCmd command r) = executed r \<or>
   executed (executeCmd command r) = executed r @ [command]"
  by (auto simp: executeCmd_def Let_def split: option.splits)

lemma dispatch_log:
  "(executed (dispatch command r) = executed r \<or>
    executed (dispatch command r) = executed r @ [command]) \<and>
   dispatched (dispatch command r) = dispatched r @ [(command, clock r)]"
proof -
  let ?r = "r\<lparr>replayedCmds := replayedCmds r + 1, dispatched := dispatched r @ [(command, clock r)]\<rparr>"
  have "dispatched (executeCmd command ?r) = dispatched ?r"
    by (simp add: executeCmd_def Let_def split: option.splits)
  with executeCmd_executed [of command ?r] show ?thesis
    by (simp add: dispatch_def)
qed

lemma step_never_executes_ChangeUser:
  assumes "list_all (\<lambda>x. Type x \<noteq> ComChangeUser) (executed r)"
    and "list_all (\<lambda>x. Type (fst x) \<noteq> ComChangeUser) (dispatched r)"
  shows "list_all (\<lambda>x. Type x \<noteq> ComChangeUser) (executed (step ev r)) \<and>
    list_all (\<lambda>x. Type (fst x) \<noteq> ComChangeUser) (dispatched (step ev r))"
proof (cases ev)
  case (Read env)
  from readCommands_iter_cases [of env r] show ?thesis
  proof
    assume "conns (readCommands_iter env r) = conns r \<and>
      executed (readCommands_iter env r) = executed r \<and>
      created (readCommands_iter env r) = created r \<and>
      creator (readCommands_iter env r) = creator r \<and>
      connCount (readCommands_iter env r) = connCount r \<and>
      dispatched (readCommands_iter env r) = dispatched r \<and>
      replayedCmds (readCommands_iter env r) = replayedCmds r"
    with assms Read show ?thesis by simp
  next
    assume "\<exists>command. item env = Decoded command \<and> Type command \<noteq> ComChangeUser \<and>
      readCommands_iter env r = dispatch command (pacing env command r)"
    then obtain command where t: "Type command \<noteq> ComChangeUser"
      and d: "readCommands_iter env r = dispatch command (pacing env command r)" by blast
    from dispatch_log [of command "pacing env command r"] assms t d Read show ?thesis
      by (auto simp: pacing_keeps)
  qed
next
  case (Drain received)
  have "executed (closeConn c r) = executed r \<and> dispatched (closeConn c r) = dispatched r" for c
    by (simp add: closeConn_def split: option.splits)
  with assms Drain show ?thesis
    by (auto simp: readCloseCh_iter_def split: option.splits)
next
  case (CallStop e)
  with assms show ?thesis by (simp add: Stop_keeps)
next
  case CallProgress
  with assms show ?thesis by (simp add: Progress_keeps)
next
  case (Wait d)
  with assms show ?thesis by simp
qed

lemma run_never_executes_ChangeUser:
  assumes "list_all (\<lambda>x. Type x \<noteq> ComChangeUser) (executed r)"
    and "list_all (\<lambda>x. Type (fst x) \<noteq> ComChangeUser) (dispatched r)"
  shows "list_all (\<lambda>x. Type x \<noteq> ComChangeUser) (executed (run evs r)) \<and>
    list_all (\<lambda>x. Type (fst x) \<noteq> ComChangeUser) (dispatched (run evs r))"
  using assms
proof (induction evs arbitrary: r)
  case Nil
  then show ?case by (simp add: run_def)
next
  case (Cons ev evs)
  from step_never_executes_ChangeUser [OF Cons.prems, of ev] Cons.IH [of "step ev r"]
  show ?case by (simp add: run_def)
qed

text \<open>
  Claim C4. A command of type \<open>ComChangeUser\<close> that the pacer reads only increments
  \<open>filteredCmds\<close>: the state is otherwise unchanged, so nothing is dispatched and no
  connection is created for it; no run ever dispatches such a command or hands it to a
  worker. One \<open>ComChangeUser\<close> followed by one \<open>ComQuery\<close> of the same connection and the
  end of the input give \<open>filteredCmds = 1\<close>, \<open>replayedCmds = 1\<close> and one connection,
  created with the user name and the password of the configuration.
\<close>

theorem ChangeUser_is_filtered:
  "(pacerRunning r \<and> \<not> ctxDone r \<and> Type command = ComChangeUser \<longrightarrow>
      step (Read \<lparr>item = Decoded command, delay = d, interrupt = i\<rparr>) r =
        r\<lparr>filteredCmds := filteredCmds r + 1\<rparr>) \<and>
   (list_all (\<lambda>x. Type x \<noteq> ComChangeUser) (executed r) \<and>
    list_all (\<lambda>x. Type (fst x) \<noteq> ComChangeUser) (dispatched r) \<longrightarrow>
      list_all (\<lambda>x. Type x \<noteq> ComChangeUser) (executed (run evs r)) \<and>
      list_all (\<lambda>x. Type (fst x) \<noteq> ComChangeUser) (dispatched (run evs r))) \<and>
   filteredCmds (run [readAtOnce (Decoded (changeUser 7 captureStart)),
                      readAtOnce (Decoded (query 7 (captureStart + 5 * Millisecond))),
                      readAtOnce DecodeEOF] (started (Finite 1) 2)) = 1 \<and>
   replayedCmds (run [readAtOnce (Decoded (changeUser 7 captureStart)),
                      readAtOnce (Decoded (query 7 (captureStart + 5 * Millisecond))),
                      readAtOnce DecodeEOF] (started (Finite 1) 2)) = 1 \<and>
   created (run [readAtOnce (Decoded (changeUser 7 captureStart)),
                 readAtOnce (Decoded (query 7 (captureStart + 5 * Millisecond))),
                 readAtOnce DecodeEOF] (started (Finite 1) 2)) = [7] \<and>
   conns (run [readAtOnce (Decoded (changeUser 7 captureStart)),
               readAtOnce (Decoded (query 7 (captureStart + 5 * Millisecond))),
               readAtOnce DecodeEOF] (started (Finite 1) 2)) = [(7, LiveConn ''u1'' ''p1'')] \<and>
   executed (run [readAtOnce (Decoded (changeUser 7 captureStart)),
                  readAtOnce (Decoded (query 7 (captureStart + 5 * Millisecond))),
                  readAtOnce DecodeEOF] (started (Finite 1) 2)) =
     [query 7 (captureStart + 5 * Millisecond)]"
proof -
  let ?evs = "[readAtOnce (Decoded (changeUser 7 captureStart)),
               readAtOnce (Decoded (query 7 (captureStart + 5 * Millisecond))),
               readAtOnce DecodeEOF]"
  have 1: "step (Read \<lparr>item = Decoded command, delay = d, interrupt = i\<rparr>) r =
        r\<lparr>filteredCmds := filteredCmds r + 1\<rparr>"
    if "pacerRunning r" "\<not> ctxDone r" "Type command = ComChangeUser"
    using that by (simp add: readCommands_iter_def)
  have 2: "filteredCmds (run ?evs (started (Finite 1) 2)) = 1" by code_simp
  have 3: "replayedCmds (run ?evs (started (Finite 1) 2)) = 1" by code_simp
  have 4: "created (run ?evs (started (Finite 1) 2)) = [7]" by code_simp
  have 5: "conns (run ?evs (started (Finite 1) 2)) = [(7, LiveConn ''u1'' ''p1'')]" by code_simp
  have 6: "executed (run ?evs (started (Finite 1) 2)) = [query 7 (captureStart + 5 * Millisecond)]"
    by code_simp
  from 1 run_never_executes_ChangeUser [of r evs] 2 3 4 5 6 show ?thesis by blast
qed

theorem ChangeUser_is_filtered_witness:
  "pacerRunning (started (Finite 1) 2) \<and> \<not> ctxDone (started (Finite 1) 2) \<and>
   Type (changeUser 7 captureStart) = ComChangeUser \<and>
   step (Read \<lparr>item = Decoded (changeUser 7 captureStart), delay = 3, interrupt = None\<rparr>)
     (started (Finite 1) 2) = (started (Finite 1) 2)\<lparr>filteredCmds := 1\<rparr> \<and>
   list_all (\<lambda>x. Type x \<noteq> ComChangeUser) (executed (started (Finite 1) 2)) \<and>
   list_all (\<lambda>x. Type (fst x) \<noteq> ComChangeUser) (dispatched (started (Finite 1) 2)) \<and>
   list_all (\<lambda>x. Type x \<noteq> ComChangeUser)
     (executed (run [readAtOnce (Decoded (changeUser 7 captureStart)),
                     readAtOnce (Decoded (query 7 captureStart))] (started (Finite 1) 2)))"
proof -
  let ?r = "started (Finite 1) 2"
  have a: "pacerRunning ?r" by code_simp
  have b: "\<not> ctxDone ?r" by code_simp
  have c: "Type (changeUser 7 captureStart) = ComChangeUser" by (simp add: changeUser_def)
  have f: "filteredCmds ?r = 0" by code_simp
  have e: "executed ?r = []" by code_simp
  have g: "dispatched ?r = []" by code_simp
  note t = ChangeUser_is_filtered [of ?r "changeUser 7 captureStart" 3 None
      "[readAtOnce (Decoded (changeUser 7 captureStart)), readAtOnce (Decoded (query 7 captureStart))]"]
  from t a b c f have 1: "step (Read \<lparr>item = Decoded (changeUser 7 captureStart), delay = 3,
      interrupt = None\<rparr>) ?r = ?r\<lparr>filteredCmds := 1\<rparr>" by simp
  from t e g have 2: "list_all (\<lambda>x. Type x \<noteq> ComChangeUser)
     (executed (run [readAtOnce (Decoded (changeUser 7 captureStart)),
                     readAtOnce (Decoded (query 7 captureStart))] ?r))" by simp
  from a b c 1 2 e g show ?thesis by simp
qed


section \<open>Properties of Progress\<close>






section \<open>Properties of the pacing\<close>

lemma executeCmd_keeps_times:
  "captureStartTs (executeCmd command r) = captureStartTs r"
  "replayStartTs (executeCmd command r) = replayStartTs r"
  "clock (executeCmd command r) = clock r"
  by (simp_all add: executeCmd_def Let_def split: option.splits)

lemma expectedInterval_clock [simp]:
  "expectedInterval (r\<lparr>clock := t\<rparr>) command = expectedInterval r command"
  by (simp add: expectedInterval_def Let_def)

lemma pacing_keeps_start:
  "\<not> IsZero (captureStartTs r) \<Longrightarrow>
   captureStartTs (pacing env command r) = captureStartTs r \<and>
   replayStartTs (pacing env command r) = replayStartTs r"
  by (simp add: pacing_def Let_def Stop_keeps split: option.splits prod.splits)

lemma step_keeps_start:
  assumes "\<not> IsZero (captureStartTs r)"
  shows "captureStartTs (step ev r) = captureStartTs r \<and> replayStartTs (step ev r) = replayStartTs r"
proof (cases ev)
  case (Read env)
  show ?thesis
  proof (cases "item env")
    case (Decoded command)
    with Read pacing_keeps_start [OF assms, of env command] show ?thesis
      by (simp add: readCommands_iter_def Let_def dispatch_def executeCmd_keeps_times)
  qed (simp_all add: Read readCommands_iter_def Stop_keeps)
next
  case (Drain received)
  have "captureStartTs (closeConn c r) = captureStartTs r \<and>
      replayStartTs (closeConn c r) = replayStartTs r" for c
    by (simp add: closeConn_def split: option.splits)
  with Drain show ?thesis by (auto simp: readCloseCh_iter_def split: option.splits)
next
  case (CallStop e)
  then show ?thesis by (simp add: Stop_keeps)
next
  case CallProgress
  then show ?thesis by (simp add: Progress_def Let_def)
next
  case (Wait d)
  then show ?thesis by simp
qed

lemma run_keeps_start:
  assumes "\<not> IsZero (captureStartTs r)"
  shows "captureStartTs (run evs r) = captureStartTs r \<and> replayStartTs (run evs r) = replayStartTs r"
  using assms
proof (induction evs arbitrary: r)
  case Nil
  show ?case by (simp add: run_def)
next
  case (Cons ev evs)
  from step_keeps_start [OF Cons.prems, of ev] Cons.prems
  have "\<not> IsZero (captureStartTs (step ev r))" by simp
  from Cons.IH [OF this] step_keeps_start [OF Cons.prems, of ev] show ?case
    by (simp add: run_def)
qed

subsection \<open>Rounding to the nearest double\<close>

lemma bitlen_powi:
  assumes "0 < (p::int)"
  shows "(2::rat) powi (bitlen p - 1) \<le> of_int p \<and> of_int p < (2::rat) powi (bitlen p)"
proof -
  from bitlen_bounds [OF assms] have a: "2 ^ nat (bitlen p - 1) \<le> p" and b: "p < 2 ^ nat (bitlen p)"
    by auto
  from assms have g: "1 \<le> bitlen p" by (auto simp: bitlen_alt_def)
  from a have "(of_int (2 ^ nat (bitlen p - 1)) :: rat) \<le> of_int p" by (simp only: of_int_le_iff)
  then have 1: "(2::rat) powi (bitlen p - 1) \<le> of_int p"
    using g by (simp add: power_int_nonneg_exp)
  from b have "(of_int p :: rat) < of_int (2 ^ nat (bitlen p))" by (simp only: of_int_less_iff)
  then have 2: "of_int p < (2::rat) powi (bitlen p)"
    using g by (simp add: power_int_nonneg_exp)
  from 1 2 show ?thesis ..
qed

lemma ilog2_bounds:
  assumes "0 < x"
  shows "2 powi (ilog2 x) \<le> x \<and> x < 2 powi (ilog2 x + 1)"
proof -
  obtain p q where pq: "quotient_of x = (p, q)" by (cases "quotient_of x")
  then have q: "0 < q" by (rule quotient_of_denom_pos)
  from pq have x: "x = of_int p / of_int q" by (rule quotient_of_div)
  with assms q have p: "0 < p" by (simp add: zero_less_divide_iff)
  let ?k = "bitlen p - bitlen q"
  from bitlen_powi [OF p] bitlen_powi [OF q]
  have bp: "(2::rat) powi (bitlen p - 1) \<le> of_int p" "of_int p < (2::rat) powi (bitlen p)"
    and bq: "(2::rat) powi (bitlen q - 1) \<le> of_int q" "of_int q < (2::rat) powi (bitlen q)"
    by auto
  have qpos: "(0::rat) < of_int q" using q by simp
  have "x < 2 powi (?k + 1)"
  proof -
    have "of_int p < (2::rat) powi (bitlen p)" by (rule bp)
    also have "\<dots> = 2 powi (?k + 1) * 2 powi (bitlen q - 1)"
      by (simp add: power_int_add [symmetric])
    also have "\<dots> \<le> 2 powi (?k + 1) * of_int q"
      using bq(1) by (simp add: mult_left_mono)
    finally show ?thesis using qpos by (simp add: x pos_divide_less_eq)
  qed
  moreover have "2 powi (?k - 1) \<le> x"
  proof -
    have "2 powi (?k - 1) * of_int q \<le> 2 powi (?k - 1) * (2::rat) powi (bitlen q)"
      using bq(2) by (simp add: mult_left_mono)
    also have "\<dots> = 2 powi (bitlen p - 1)"
      by (simp add: power_int_add [symmetric])
    also have "\<dots> \<le> of_int p" by (rule bp)
    finally show ?thesis using qpos by (simp add: x pos_le_divide_eq)
  qed
  moreover have "(2::rat) powi (?k - 1 + 1) = 2 powi ?k" by simp
  ultimately show ?thesis
    using pq by (auto simp: ilog2_def Let_def)
qed

lemma ilog2_less:
  assumes "0 < v" and "v < 2 powi k"
  shows "ilog2 v < k"
proof (rule ccontr)
  assume "\<not> ilog2 v < k"
  then have "k \<le> ilog2 v" by simp
  then have "(2::rat) powi k \<le> 2 powi (ilog2 v)" by (intro power_int_increasing) auto
  with ilog2_bounds [OF assms(1)] assms(2) show False by linarith
qed

lemma ilog2_eq:
  assumes "2 powi k \<le> x" and "x < 2 powi (k + 1)"
  shows "ilog2 x = k"
proof -
  have pos: "0 < x" using assms(1) by (rule less_le_trans [rotated]) (simp add: zero_less_power_int)
  from ilog2_less [OF pos assms(2)] have 1: "ilog2 x \<le> k" by simp
  have "k < ilog2 x + 1"
  proof (rule ccontr)
    assume "\<not> k < ilog2 x + 1"
    then have "ilog2 x + 1 \<le> k" by simp
    then have "(2::rat) powi (ilog2 x + 1) \<le> 2 powi k" by (intro power_int_increasing) auto
    with ilog2_bounds [OF pos] assms(1) show False by linarith
  qed
  with 1 show ?thesis by simp
qed

lemma roundEven_near: "\<bar>of_int (roundEven x) - x\<bar> \<le> 1 / 2"
proof -
  have "of_int \<lfloor>x\<rfloor> \<le> x" "x < of_int \<lfloor>x\<rfloor> + 1" by linarith+
  then show ?thesis by (auto simp: roundEven_def Let_def)
qed

lemma roundEven_of_int: "roundEven (of_int n) = n"
  by (simp add: roundEven_def)

text \<open>In the normal range the rounding moves a value by at most one part in \<open>2 ^ 53\<close>.\<close>

lemma f64_round_near:
  assumes "2 powi (- 1022) \<le> x" and "x < 2 powi 1023"
  shows "f64_round x = Finite (of_int (roundEven (x / 2 powi (ilog2 x - 52))) * 2 powi (ilog2 x - 52)) \<and>
    \<bar>of_int (roundEven (x / 2 powi (ilog2 x - 52))) * 2 powi (ilog2 x - 52) - x\<bar> \<le> x / 2 ^ 53"
proof -
  have pos: "0 < x" using assms(1) by (rule less_le_trans [rotated]) simp
  let ?k = "ilog2 x"
  from ilog2_bounds [OF pos] have lo: "2 powi ?k \<le> x" and hi: "x < 2 powi (?k + 1)" by auto
  have k1: "- 1022 \<le> ?k"
  proof (rule ccontr)
    assume "\<not> - 1022 \<le> ?k"
    then have "?k + 1 \<le> - 1022" by simp
    then have "(2::rat) powi (?k + 1) \<le> 2 powi (- 1022)" by (intro power_int_increasing) auto
    with hi assms(1) show False by linarith
  qed
  let ?u = "?k - 52"
  let ?n = "roundEven (x / 2 powi ?u)"
  let ?v = "(of_int ?n :: rat) * 2 powi ?u"
  have u: "max (?k - 52) (- 1074) = ?u" using k1 by simp
  have upos: "(0::rat) < 2 powi ?u" by (simp add: zero_less_power_int)
  have sc: "\<bar>n * c - x\<bar> = \<bar>n - x / c\<bar> * c" if "0 < c" for n c :: rat
  proof -
    from that have "n * c - x = (n - x / c) * c" by (simp add: left_diff_distrib)
    then have "\<bar>n * c - x\<bar> = \<bar>n - x / c\<bar> * \<bar>c\<bar>" by (simp only: abs_mult)
    with that show ?thesis by simp
  qed
  have "\<bar>?v - x\<bar> = \<bar>of_int ?n - x / 2 powi ?u\<bar> * 2 powi ?u"
    by (rule sc [OF upos])
  also have "\<dots> \<le> 1 / 2 * 2 powi ?u"
    using upos roundEven_near [of "x / 2 powi ?u"] by (intro mult_right_mono) auto
  also have "\<dots> = 2 powi ?k / 2 ^ 53"
  proof -
    have "(2::rat) powi ?k = 2 powi (?u + 52)" by simp
    also have "\<dots> = 2 powi ?u * 2 powi 52" by (subst power_int_add) auto
    finally show ?thesis by simp
  qed
  also have "\<dots> \<le> x / 2 ^ 53" using lo by (simp add: divide_right_mono)
  finally have near: "\<bar>?v - x\<bar> \<le> x / 2 ^ 53" .
  have "x / 2 ^ 53 \<le> x" using pos by (simp add: field_simps)
  with near have "?v \<le> 2 * x" by linarith
  also have "\<dots> < 2 * 2 powi 1023" using assms(2) by simp
  also have "\<dots> = (2::rat) powi 1024" by simp
  finally have lt: "?v < (2::rat) powi 1024" .
  have fin: "\<not> (0 < ?v \<and> 1024 \<le> ilog2 ?v)"
  proof
    assume "0 < ?v \<and> 1024 \<le> ilog2 ?v"
    then have "0 < ?v" and "1024 \<le> ilog2 ?v" by blast+
    from ilog2_less [OF this(1) lt] this(2) show False by linarith
  qed
  have "f64_round x = Finite ?v"
    using pos fin u by (simp add: f64_round_def Let_def del: power_int_numeral)
  with near show ?thesis by blast
qed

text \<open>An integer below \<open>2 ^ 53\<close> is a double.\<close>

lemma f64_round_int:
  assumes "0 \<le> i" and "i < 2 ^ 53"
  shows "f64_round (of_int i) = Finite (of_int i)"
proof (cases "i = 0")
  case True
  then show ?thesis by (simp add: f64_round_def)
next
  case False
  with assms have ipos: "0 < i" by simp
  let ?x = "of_int i :: rat"
  have pos: "0 < ?x" using ipos by simp
  let ?k = "ilog2 ?x"
  from ilog2_bounds [OF pos] have lo: "2 powi ?k \<le> ?x" and hi: "?x < 2 powi (?k + 1)" by auto
  have x1: "(1::rat) \<le> ?x" using ipos by (simp add: of_int_le_iff [of 1 i, simplified])
  have x2: "?x < 2 powi 53" using assms(2) by (simp add: of_int_less_iff [of i "2 ^ 53", simplified])
  have k0: "0 \<le> ?k"
  proof (rule ccontr)
    assume "\<not> 0 \<le> ?k"
    then have "?k + 1 \<le> 0" by simp
    then have "(2::rat) powi (?k + 1) \<le> 2 powi 0" by (intro power_int_increasing) auto
    with hi x1 show False by simp
  qed
  have k52: "?k \<le> 52"
  proof (rule ccontr)
    assume "\<not> ?k \<le> 52"
    then have "53 \<le> ?k" by simp
    then have "(2::rat) powi 53 \<le> 2 powi ?k" by (intro power_int_increasing) auto
    with lo x2 show False by linarith
  qed
  define j where "j = nat (52 - ?k)"
  have u: "max (?k - 52) (- 1074) = - int j" using k0 k52 by (simp add: j_def)
  have p: "(2::rat) powi (- int j) = 1 / 2 ^ j" by (simp add: power_int_minus_divide)
  have d: "?x / 2 powi (- int j) = of_int (i * 2 ^ j)" by (simp add: p)
  have v: "of_int (roundEven (?x / 2 powi (- int j))) * (2::rat) powi (- int j) = ?x"
    unfolding d roundEven_of_int by (simp add: p)
  have lt: "?x < (2::rat) powi 1024"
    using x2 by (rule less_trans) simp
  from ilog2_less [OF pos lt] have fin: "\<not> (0 < ?x \<and> 1024 \<le> ilog2 ?x)"
    by linarith
  show ?thesis
    using pos fin by (simp add: f64_round_def Let_def u v del: power_int_numeral)
qed

subsection \<open>The expected interval\<close>

lemma expectedInterval_speed_1:
  "f64_eq (Speed (cfg r)) (Finite 1) \<Longrightarrow>
   expectedInterval r command = Sub (StartTs command) (captureStartTs r)"
  by (simp add: expectedInterval_def Let_def)

text \<open>
  For a speed within the validated bounds and a capture interval below \<open>2 ^ 53\<close>
  nanoseconds (104 days) the expected interval is the quotient of the interval and the
  speed, up to the rounding of the division and the truncation to nanoseconds.
\<close>

lemma expectedInterval_near:
  assumes "Speed (cfg r) = Finite s" and "1 / 10 \<le> s" and "s \<le> 10"
    and "0 \<le> Sub (StartTs command) (captureStartTs r)"
    and "Sub (StartTs command) (captureStartTs r) < 2 ^ 53"
  shows "\<bar>of_int (expectedInterval r command) - of_int (Sub (StartTs command) (captureStartTs r)) / s\<bar>
      < 1 + of_int (Sub (StartTs command) (captureStartTs r)) / s / 2 ^ 53"
proof -
  define e where "e = Sub (StartTs command) (captureStartTs r)"
  define q where "q = (of_int e :: rat) / s"
  have spos: "0 < s" using assms(2) by simp
  have e0: "0 \<le> e" and e53: "e < 2 ^ 53" using assms(4,5) by (simp_all add: e_def)
  have q0: "0 \<le> q" using e0 spos by (simp add: q_def)
  show ?thesis
  proof (cases "s = 1")
    case True
    with assms(1) have "expectedInterval r command = e"
      by (simp add: expectedInterval_def Let_def e_def)
    with True q0 show ?thesis unfolding e_def [symmetric] by (simp add: q_def)
  next
    case s1: False
    have fe: "f64_of_int64 e = Finite (of_int e)"
      unfolding f64_of_int64_def using e0 e53 by (rule f64_round_int)
    have ex: "expectedInterval r command = Duration_of_f64 (f64_round q)"
      using assms(1) s1 spos by (simp add: expectedInterval_def Let_def e_def [symmetric] fe q_def)
    show ?thesis
    proof (cases "e = 0")
      case True
      then have "f64_round q = Finite 0" by (simp add: q_def f64_round_def)
      with True ex show ?thesis unfolding e_def [symmetric] by (simp add: minInt64_def maxInt64_def)
    next
      case False
      with e0 have "1 \<le> e" by simp
      then have e1: "(1::rat) \<le> of_int e" by (simp add: of_int_le_iff [of 1 e, simplified])
      have e2: "(of_int e :: rat) < 2 ^ 53"
        using e53 by (simp add: of_int_less_iff [of e "2 ^ 53", simplified])
      have qlo: "1 / 10 \<le> q"
      proof -
        have "1 / 10 \<le> 1 / s" using spos assms(3) by (simp add: field_simps)
        also have "\<dots> \<le> of_int e / s" using e1 spos by (simp add: divide_right_mono)
        finally show ?thesis by (simp add: q_def)
      qed
      have qhi: "q < 10 * 2 ^ 53"
      proof -
        have "of_int e / s \<le> of_int e / (1 / 10)"
          using e1 assms(2) by (intro divide_left_mono) auto
        also have "\<dots> < 10 * 2 ^ 53" using e2 by simp
        finally show ?thesis by (simp add: q_def)
      qed
      have a: "2 powi (- 1022) \<le> q"
        using qlo by (rule order_trans [rotated]) simp
      have b: "q < 2 powi 1023"
        using qhi by (rule less_trans) simp
      from f64_round_near [OF a b] obtain v where v: "f64_round q = Finite v"
        and near: "\<bar>v - q\<bar> \<le> q / 2 ^ 53" by blast
      have "q / 2 ^ 53 \<le> q" using q0 by (simp add: field_simps)
      with near have v0: "0 \<le> v" and v2: "v \<le> 2 * q" by linarith+
      from v2 qhi have "v < 20 * 2 ^ 53" by linarith
      then have "\<lfloor>v\<rfloor> < 20 * 2 ^ 53" by (simp add: floor_less_iff)
      then have hi: "\<lfloor>v\<rfloor> \<le> maxInt64" by (simp add: maxInt64_def)
      from v0 have "0 \<le> \<lfloor>v\<rfloor>" by simp
      then have lo: "minInt64 \<le> \<lfloor>v\<rfloor>" by (simp add: minInt64_def)
      have "expectedInterval r command = \<lfloor>v\<rfloor>"
        using v0 hi lo by (simp add: ex v Let_def)
      moreover have "\<bar>of_int \<lfloor>v\<rfloor> - q\<bar> < 1 + q / 2 ^ 53"
        using near by linarith
      ultimately show ?thesis unfolding e_def [symmetric] q_def by simp
    qed
  qed
qed

text \<open>
  The double nearest to one tenth is a little more than one tenth. At that speed an
  interval of 100 milliseconds gives a quotient a little below \<open>10 ^ 9\<close>, which the
  division rounds to \<open>10 ^ 9\<close>: the expected interval is one second.
\<close>

lemma expectedInterval_tenth:
  "f64_round (1 / 10) = Finite (3602879701896397 / 36028797018963968) \<and>
   expectedInterval
     (run [readAtOnce (Decoded (query 7 captureStart))] (started (f64_round (1 / 10)) 3))
     (query 7 (captureStart + 100 * Millisecond)) = 1000 * Millisecond"
  by code_simp

subsection \<open>The first paced command\<close>

text \<open>A time decoded from a record is never Go's zero time, which lies before every
  time that a 64-bit count of nanoseconds since the Unix epoch can express.\<close>

lemma decodeStartTs_not_zero: "\<not> IsZero (decodeStartTs n)"
proof -
  have "- (2 ^ 63) \<le> sint n" using sint_ge [of n] by simp
  then show ?thesis by (simp add: IsZero_def decodeStartTs_def Unix_def unixToInternal_def)
qed

lemma first_read_sets_start:
  assumes "pacerRunning r0" and "\<not> ctxDone r0" and "IsZero (captureStartTs r0)"
    and "item env0 = Decoded c0" and "Type c0 \<noteq> ComChangeUser"
  shows "captureStartTs (step (Read env0) r0) = StartTs c0 \<and>
         replayStartTs (step (Read env0) r0) = clock r0 + int (delay env0)"
proof -
  let ?r2 = "r0\<lparr>clock := clock r0 + int (delay env0), captureStartTs := StartTs c0,
      replayStartTs := clock r0 + int (delay env0)\<rparr>"
  have p: "pacing env0 c0 r0 = (case interrupt env0 of None \<Rightarrow> ?r2 | Some (t, e) \<Rightarrow> Stop e ?r2)"
    using assms(3) by (simp add: pacing_def Let_def IsZero_def)
  have "captureStartTs (pacing env0 c0 r0) = StartTs c0 \<and>
      replayStartTs (pacing env0 c0 r0) = clock r0 + int (delay env0)"
    unfolding p by (simp add: Stop_keeps split: option.splits prod.splits)
  then show ?thesis
    using assms(1,2,4,5)
    by (simp add: readCommands_iter_def Let_def dispatch_def executeCmd_keeps_times)
qed

text \<open>
  Claim C2. Let \<open>c0\<close> be the first paced command, the one that the pacer reads while it
  has no capture start yet, and \<open>t0\<close> the time at which it is read; the time of a
  decoded command is never Go's zero time. Through every run of the replay after it,
  \<open>c0.StartTs\<close> and \<open>t0\<close> stay the baseline of the pacer. Before dispatching a later
  command \<open>c\<close> the pacer computes \<open>expected = (c.StartTs - c0.StartTs) / Speed\<close>: the
  difference itself at speed 1, otherwise the \<open>float64\<close> quotient truncated to
  nanoseconds, which for a validated speed and an interval below \<open>2 ^ 53\<close> nanoseconds
  is the exact quotient up to one nanosecond and one part in \<open>2 ^ 53\<close>. It sleeps exactly
  when the time since \<open>t0\<close> plus one microsecond is less than \<open>expected\<close>: for the
  deficit, or until \<open>Stop\<close> cancels the context, in which case the command is not
  dispatched. Records captured at 0, 100 and 300 milliseconds are dispatched at 0, 50
  and 150 milliseconds at speed 2 when reading takes no time.
\<close>

theorem pacer_sleeps_for_the_deficit:
  assumes "pacerRunning r0" and "\<not> ctxDone r0" and "IsZero (captureStartTs r0)"
    and "item env0 = Decoded c0" and "Type c0 \<noteq> ComChangeUser" and "\<not> IsZero (StartTs c0)"
    and "r = run evs (step (Read env0) r0)"
    and "pacerRunning r" and "\<not> ctxDone r" and "Type c \<noteq> ComChangeUser"
  shows
   "captureStartTs r = StartTs c0 \<and> replayStartTs r = clock r0 + int (delay env0) \<and>
    expectedInterval r c =
      (if f64_eq (Speed (cfg r)) (Finite 1) then Sub (StartTs c) (StartTs c0)
       else Duration_of_f64
              (f64_quotient (f64_of_int64 (Sub (StartTs c) (StartTs c0))) (Speed (cfg r)))) \<and>
    (Speed (cfg r) = Finite s \<and> 1 / 10 \<le> s \<and> s \<le> 10 \<and>
     0 \<le> Sub (StartTs c) (StartTs c0) \<and> Sub (StartTs c) (StartTs c0) < 2 ^ 53 \<longrightarrow>
       \<bar>of_int (expectedInterval r c) - of_int (Sub (StartTs c) (StartTs c0)) / s\<bar>
         < 1 + of_int (Sub (StartTs c) (StartTs c0)) / s / 2 ^ 53) \<and>
    (Sub (clock r + int d) (clock r0 + int (delay env0)) + Microsecond < expectedInterval r c \<longrightarrow>
       step (Read \<lparr>item = Decoded c, delay = d, interrupt = None\<rparr>) r =
         dispatch c
           (r\<lparr>clock := clock r + int d +
                 (expectedInterval r c - Sub (clock r + int d) (clock r0 + int (delay env0)))\<rparr>)) \<and>
    (\<not> Sub (clock r + int d) (clock r0 + int (delay env0)) + Microsecond < expectedInterval r c \<longrightarrow>
       step (Read \<lparr>item = Decoded c, delay = d, interrupt = None\<rparr>) r =
         dispatch c (r\<lparr>clock := clock r + int d\<rparr>)) \<and>
    (\<not> IsZero (startTime r) \<and> cancel r \<and>
     Sub (clock r + int d) (clock r0 + int (delay env0)) + Microsecond < expectedInterval r c \<longrightarrow>
       step (Read \<lparr>item = Decoded c, delay = d, interrupt = Some (t, e)\<rparr>) r =
         (Stop e (r\<lparr>clock := clock r + int d +
                 min (expectedInterval r c - Sub (clock r + int d) (clock r0 + int (delay env0)))
                   (int t)\<rparr>))
           \<lparr>pacerRunning := False\<rparr>) \<and>
    \<not> IsZero (decodeStartTs n) \<and>
    map (\<lambda>x. snd x - replayStart)
      (dispatched (run [readAtOnce (Decoded (query 7 captureStart)),
                        readAtOnce (Decoded (query 7 (captureStart + 100 * Millisecond))),
                        readAtOnce (Decoded (query 7 (captureStart + 300 * Millisecond)))]
                     (started (Finite 2) 3)))
      = [0, 50 * Millisecond, 150 * Millisecond]"
proof -
  let ?r1 = "step (Read env0) r0"
  from first_read_sets_start [OF assms(1-5)]
  have f: "captureStartTs ?r1 = StartTs c0" "replayStartTs ?r1 = clock r0 + int (delay env0)"
    by simp_all
  from assms(6) f have "\<not> IsZero (captureStartTs ?r1)" by simp
  from run_keeps_start [OF this, of evs] f assms(7)
  have cs: "captureStartTs r = StartTs c0" and rs: "replayStartTs r = clock r0 + int (delay env0)"
    by simp_all
  from cs assms(6) have nz: "\<not> IsZero (captureStartTs r)" by simp
  let ?read = "\<lambda>i. step (Read \<lparr>item = Decoded c, delay = d, interrupt = i\<rparr>) r"
  let ?elapsed = "Sub (clock r + int d) (clock r0 + int (delay env0))"
  let ?expected = "expectedInterval r c"
  have it: "?read i = (let r3 = pacing \<lparr>item = Decoded c, delay = d, interrupt = i\<rparr> c r
      in if ctxDone r3 then r3\<lparr>pacerRunning := False\<rparr> else dispatch c r3)" for i
    using assms(8-10) by (simp add: readCommands_iter_def)
  have 0: "?expected =
      (if f64_eq (Speed (cfg r)) (Finite 1) then Sub (StartTs c) (StartTs c0)
       else Duration_of_f64
              (f64_quotient (f64_of_int64 (Sub (StartTs c) (StartTs c0))) (Speed (cfg r))))"
    by (simp add: expectedInterval_def Let_def cs)
  have 1: "\<bar>of_int ?expected - of_int (Sub (StartTs c) (StartTs c0)) / s\<bar>
         < 1 + of_int (Sub (StartTs c) (StartTs c0)) / s / 2 ^ 53"
    if "Speed (cfg r) = Finite s" "1 / 10 \<le> s" "s \<le> 10"
      "0 \<le> Sub (StartTs c) (StartTs c0)" "Sub (StartTs c) (StartTs c0) < 2 ^ 53"
    using expectedInterval_near [of r s c] that unfolding cs by simp
  have 2: "?read None = dispatch c (r\<lparr>clock := clock r + int d + (?expected - ?elapsed)\<rparr>)"
    if "?elapsed + Microsecond < ?expected"
    using that nz assms(9) unfolding it by (simp add: pacing_def pace_def Let_def rs)
  have 3: "?read None = dispatch c (r\<lparr>clock := clock r + int d\<rparr>)"
    if "\<not> ?elapsed + Microsecond < ?expected"
    using that nz assms(9) unfolding it by (simp add: pacing_def pace_def Let_def rs)
  have 4: "?read (Some (t, e)) =
      (Stop e (r\<lparr>clock := clock r + int d + min (?expected - ?elapsed) (int t)\<rparr>))\<lparr>pacerRunning := False\<rparr>"
    if "\<not> IsZero (startTime r)" "cancel r" "?elapsed + Microsecond < ?expected"
  proof -
    let ?r1 = "r\<lparr>clock := clock r + int d + min (?expected - ?elapsed) (int t)\<rparr>"
    have p: "pacing \<lparr>item = Decoded c, delay = d, interrupt = Some (t, e)\<rparr> c r = Stop e ?r1"
      using that nz by (simp add: pacing_def pace_def Let_def rs)
    have "ctxDone (Stop e ?r1)"
      using that by (simp add: Stop_def Let_def split: option.splits)
    then show ?thesis unfolding it p by (simp add: Let_def)
  qed
  have 5: "map (\<lambda>x. snd x - replayStart)
      (dispatched (run [readAtOnce (Decoded (query 7 captureStart)),
                        readAtOnce (Decoded (query 7 (captureStart + 100 * Millisecond))),
                        readAtOnce (Decoded (query 7 (captureStart + 300 * Millisecond)))]
                     (started (Finite 2) 3)))
      = [0, 50 * Millisecond, 150 * Millisecond]"
    by code_simp
  from cs rs 0 1 2 3 4 5 decodeStartTs_not_zero [of n] show ?thesis by blast
qed

theorem pacer_sleeps_for_the_deficit_witness:
  "pacerRunning (started (Finite 2) 3) \<and> \<not> ctxDone (started (Finite 2) 3) \<and>
   IsZero (captureStartTs (started (Finite 2) 3)) \<and>
   Type (query 7 captureStart) \<noteq> ComChangeUser \<and> \<not> IsZero (StartTs (query 7 captureStart)) \<and>
   pacerRunning (run [CallProgress] (step (readAtOnce (Decoded (query 7 captureStart)))
                    (started (Finite 2) 3))) \<and>
   \<not> ctxDone (run [CallProgress] (step (readAtOnce (Decoded (query 7 captureStart)))
                    (started (Finite 2) 3))) \<and>
   Type (query 7 (captureStart + 100 * Millisecond)) \<noteq> ComChangeUser \<and>
   expectedInterval (run [CallProgress] (step (readAtOnce (Decoded (query 7 captureStart)))
                    (started (Finite 2) 3)))
     (query 7 (captureStart + 100 * Millisecond)) = 50 * Millisecond \<and>
   clock (step (Read \<lparr>item = Decoded (query 7 (captureStart + 100 * Millisecond)), delay = 0,
                       interrupt = None\<rparr>)
            (run [CallProgress] (step (readAtOnce (Decoded (query 7 captureStart)))
               (started (Finite 2) 3))))
     = replayStart + 50 * Millisecond"
proof -
  let ?start = "started (Finite 2) 3"
  let ?env0 = "\<lparr>item = Decoded (query 7 captureStart), delay = 0, interrupt = None\<rparr>"
  let ?later = "run [CallProgress] (step (Read ?env0) ?start)"
  let ?c0 = "query 7 captureStart"
  let ?c1 = "query 7 (captureStart + 100 * Millisecond)"
  have a0: "pacerRunning ?start" by code_simp
  have b0: "\<not> ctxDone ?start" by code_simp
  have z0: "IsZero (captureStartTs ?start)" by code_simp
  have i0: "item ?env0 = Decoded ?c0" by simp
  have c0: "Type ?c0 \<noteq> ComChangeUser"
    by (simp add: query_def ComQuery_def ComChangeUser_def)
  have n0: "\<not> IsZero (StartTs ?c0)"
    by (simp add: query_def captureStart_def UnixMilli_def unixToInternal_def IsZero_def)
  have a: "pacerRunning ?later" by code_simp
  have b: "\<not> ctxDone ?later" by code_simp
  have c: "Type ?c1 \<noteq> ComChangeUser"
    by (simp add: query_def ComQuery_def ComChangeUser_def)
  have e: "expectedInterval ?later ?c1 = 50 * Millisecond" by code_simp
  have k: "clock ?later = replayStart" by code_simp
  have k0: "clock ?start = replayStart" by code_simp
  have l: "Sub (clock ?later + int 0) (clock ?start + int (delay ?env0)) + Microsecond
      < expectedInterval ?later ?c1"
    unfolding e k k0 by (simp add: Sub_def Microsecond_def Millisecond_def maxInt64_def minInt64_def)
  from pacer_sleeps_for_the_deficit [OF a0 b0 z0 i0 c0 n0 refl a b c, where d = 0] l
  have "step (Read \<lparr>item = Decoded ?c1, delay = 0, interrupt = None\<rparr>) ?later =
      dispatch ?c1 (?later\<lparr>clock := clock ?later + int 0 +
          (expectedInterval ?later ?c1 - Sub (clock ?later + int 0) (clock ?start + int (delay ?env0)))\<rparr>)"
    by blast
  then have 1: "clock (step (Read \<lparr>item = Decoded ?c1, delay = 0, interrupt = None\<rparr>) ?later) =
      replayStart + 50 * Millisecond"
    unfolding e k k0
    by (simp add: dispatch_def executeCmd_keeps_times Sub_def maxInt64_def minInt64_def Millisecond_def)
  from a0 b0 z0 c0 n0 a b c e 1 show ?thesis by (simp add: readAtOnce_def)
qed

section \<open>Properties of IsSensitiveSQL\<close>

lemma IsSensitiveSQL_examples:
  "IsSensitiveSQL createUserSQL \<and> \<not> IsSensitiveSQL ''SELECT 1'' \<and> IsSensitiveSQL setPasswordSQL \<and>
   IsSensitiveSQL backupSQL \<and> \<not> IsSensitiveSQL []"
  by code_simp

text \<open>
  Every statement whose leading keywords are a sensitive prefix is reported: one case
  for each row of the table.
\<close>

lemma single_rows: "([k1] \<in> set sensitiveKeywords) =
   (k1 = ''GRANT'' \<or> k1 = ''BACKUP'' \<or> k1 = ''RESTORE'' \<or> k1 = ''IMPORT'')"
  unfolding sensitiveKeywords_def by simp

lemma double_rows: "([k1, k2] \<in> set sensitiveKeywords) =
   ((k1 = ''CREATE'' \<and> k2 = ''USER'') \<or> (k1 = ''ALTER'' \<and> k2 = ''USER'') \<or>
    (k1 = ''SET'' \<and> k2 = ''PASSWORD'') \<or> (k1 = ''LOAD'' \<and> k2 = ''DATA''))"
  unfolding sensitiveKeywords_def by simp

lemma matchKeywords_single:
  "k1 = ''GRANT'' \<or> k1 = ''BACKUP'' \<or> k1 = ''RESTORE'' \<or> k1 = ''IMPORT'' \<Longrightarrow>
   matchKeywords sensitiveKeywords k1 lx"
  unfolding sensitiveKeywords_def by (elim disjE) simp_all

lemma matchKeywords_double:
  "(k1 = ''CREATE'' \<and> fst (NextToken lx) = ''USER'') \<or>
   (k1 = ''ALTER'' \<and> fst (NextToken lx) = ''USER'') \<or>
   (k1 = ''SET'' \<and> fst (NextToken lx) = ''PASSWORD'') \<or>
   (k1 = ''LOAD'' \<and> fst (NextToken lx) = ''DATA'') \<Longrightarrow>
   matchKeywords sensitiveKeywords k1 lx"
  unfolding sensitiveKeywords_def by (elim disjE conjE) (simp_all add: Let_def)

lemma IsSensitiveSQL_complete:
  assumes "beginsWithSensitivePrefix sql"
  shows "IsSensitiveSQL sql"
proof -
  define k1 where "k1 = fst (NextToken (NewLexer sql))"
  define lx where "lx = snd (NextToken (NewLexer sql))"
  have code: "IsSensitiveSQL sql =
      (if length k1 = 0 then False else matchKeywords sensitiveKeywords k1 lx)"
    by (simp add: IsSensitiveSQL_def Let_def k1_def lx_def)
  from assms have d: "[k1] \<in> set sensitiveKeywords \<or> [k1, fst (NextToken lx)] \<in> set sensitiveKeywords"
    by (simp add: beginsWithSensitivePrefix_def Let_def k1_def lx_def)
  then have m: "matchKeywords sensitiveKeywords k1 lx"
  proof
    assume "[k1] \<in> set sensitiveKeywords"
    then have "k1 = ''GRANT'' \<or> k1 = ''BACKUP'' \<or> k1 = ''RESTORE'' \<or> k1 = ''IMPORT''"
      unfolding single_rows .
    then show ?thesis by (rule matchKeywords_single)
  next
    assume "[k1, fst (NextToken lx)] \<in> set sensitiveKeywords"
    then have "(k1 = ''CREATE'' \<and> fst (NextToken lx) = ''USER'') \<or>
       (k1 = ''ALTER'' \<and> fst (NextToken lx) = ''USER'') \<or>
       (k1 = ''SET'' \<and> fst (NextToken lx) = ''PASSWORD'') \<or>
       (k1 = ''LOAD'' \<and> fst (NextToken lx) = ''DATA'')"
      unfolding double_rows .
    then show ?thesis by (rule matchKeywords_double)
  qed
  from d have "k1 \<noteq> []"
    unfolding single_rows double_rows by (elim disjE conjE) simp_all
  with m show ?thesis unfolding code by simp
qed

text \<open>
  Whatever the lexer reads, once the first token is \<open>CREATE\<close> and the second one is
  \<open>GRANT\<close> the loop returns true.
\<close>

lemma matchKeywords_CREATE_then_GRANT:
  "fst (NextToken lexer) = ''GRANT'' \<Longrightarrow> matchKeywords sensitiveKeywords ''CREATE'' lexer"
  unfolding sensitiveKeywords_def by (simp add: Let_def)

text \<open>
  Claim C1. The code returns true for a statement whose leading keywords are not a
  sensitive prefix: for \<open>CREATE GRANT\<close> the first token matches the first keyword of the
  row \<open>CREATE USER\<close>, the second token \<open>GRANT\<close> is not \<open>USER\<close>, but it has replaced the
  first token in the variable that the following rows are compared with, and the row
  \<open>GRANT\<close> matches it. The other direction of the claim holds (lemma above), and so do
  the five statements that the claim lists.
\<close>

theorem IsSensitiveSQL_second_keyword_rematched:
  "IsSensitiveSQL ''CREATE GRANT'' \<and> \<not> beginsWithSensitivePrefix ''CREATE GRANT'' \<and>
   fst (NextToken (NewLexer ''CREATE GRANT'')) = ''CREATE'' \<and>
   fst (NextToken (snd (NextToken (NewLexer ''CREATE GRANT'')))) = ''GRANT''"
  by code_simp

end
